theory Spec2Isabelle
  imports Main "HOL-Library.Sublist"
begin

section \<open>Python strings\<close>

text \<open>
  A Python \<open>str\<close> is modelled as a \<open>string\<close>. A \<open>char\<close> stands for one code point
  below 256; on that range \<open>str.isspace\<close>, the class \<open>\s\<close> of \<open>re\<close> and \<open>str.lower\<close>
  are the tables below.
\<close>

abbreviation NL :: char where
  "NL \<equiv> CHR 0x0A"

abbreviation CR :: char where
  "CR \<equiv> CHR 0x0D"

text \<open>
  Reading a file in text mode with the default \<open>newline=None\<close>: \<open>"\r\n"\<close> and a lone
  \<open>"\r"\<close> both arrive as \<open>"\n"\<close>.
\<close>

fun universal_newlines :: "string \<Rightarrow> string" where
  "universal_newlines [] = []"
| "universal_newlines [c] = (if c = CR then [NL] else [c])"
| "universal_newlines (c # d # s) =
     (if c = CR
      then (if d = NL then NL # universal_newlines s else NL # universal_newlines (d # s))
      else c # universal_newlines (d # s))"

definition isspace :: "char \<Rightarrow> bool" where
  "isspace c = (let n = (of_char c :: nat)
     in (9 \<le> n \<and> n \<le> 13) \<or> (28 \<le> n \<and> n \<le> 32) \<or> n = 133 \<or> n = 160)"

definition lstrip :: "string \<Rightarrow> string" where
  "lstrip s = dropWhile isspace s"

definition rstrip :: "string \<Rightarrow> string" where
  "rstrip s = rev (dropWhile isspace (rev s))"

definition strip :: "string \<Rightarrow> string" where
  "strip s = rstrip (lstrip s)"

text \<open>\<open>s.rstrip(".")\<close>: the trailing characters of the given set are removed.\<close>

definition rstrip_chars :: "string \<Rightarrow> string \<Rightarrow> string" where
  "rstrip_chars cs s = rev (dropWhile (\<lambda>c. c \<in> set cs) (rev s))"

definition lower_char :: "char \<Rightarrow> char" where
  "lower_char c = (let n = (of_char c :: nat)
     in if (65 \<le> n \<and> n \<le> 90) \<or> (192 \<le> n \<and> n \<le> 222 \<and> n \<noteq> 215)
        then char_of (n + 32) else c)"

definition lower :: "string \<Rightarrow> string" where
  "lower s = map lower_char s"

text \<open>\<open>s.split(d)\<close> for a one-character separator; the result is never empty.\<close>

fun split_on :: "char \<Rightarrow> string \<Rightarrow> string list" where
  "split_on d [] = [[]]"
| "split_on d (c # cs) =
     (if c = d then [] # split_on d cs
      else (case split_on d cs of [] \<Rightarrow> [[c]] | w # ws \<Rightarrow> (c # w) # ws))"

text \<open>\<open>s.split("/")[0]\<close>: the text before the first slash.\<close>

definition host_part :: "string \<Rightarrow> string" where
  "host_part s = (case split_on (CHR ''/'') s of [] \<Rightarrow> [] | w # ws \<Rightarrow> w)"

text \<open>\<open>"\n".join(lines)\<close>\<close>

fun join_nl :: "string list \<Rightarrow> string" where
  "join_nl [] = []"
| "join_nl [l] = l"
| "join_nl (l # ls) = l @ NL # join_nl ls"

text \<open>\<open>s.endswith(t)\<close> and the slice \<open>s[:-k]\<close>. In Python \<open>s[:-0]\<close> is \<open>s[:0]\<close>, the empty string.\<close>

definition endswith :: "string \<Rightarrow> string \<Rightarrow> bool" where
  "endswith s t = (length t \<le> length s \<and> drop (length s - length t) s = t)"

definition slice_to_neg :: "string \<Rightarrow> nat \<Rightarrow> string" where
  "slice_to_neg s k = (if k = 0 then [] else take (length s - k) s)"

text \<open>\<open>str(i)\<close> for a natural number, as the f-string \<open>f"10.8.0.{i}"\<close> formats it.\<close>

definition digit_char :: "nat \<Rightarrow> char" where
  "digit_char d = char_of (48 + d)"

fun str_nat :: "nat \<Rightarrow> string" where
  "str_nat n = (if n < 10 then [digit_char n] else str_nat (n div 10) @ [digit_char (n mod 10)])"

declare str_nat.simps [simp del]

section \<open>Errors\<close>

text \<open>
  The exceptions of the module as values. \<open>add_peer\<close> and \<open>check_ip_conflict\<close> raise
  \<open>ValueError\<close> with three different messages (name exists, address in use, invalid
  address), kept apart here by constructor and carrying the name or address of the message;
  \<open>PoolExhausted\<close> is the \<open>RuntimeError\<close> of \<open>get_next_available_ip\<close>;
  \<open>AddressValueError\<close> is what \<open>ipaddress.IPv4Address\<close> raises.
\<close>

datatype error =
    FileNotFoundError
  | AddressValueError
  | InvalidAddress string
  | NameConflict string
  | AddressConflict string
  | PoolExhausted

section \<open>ipaddress.IPv4Address\<close>

text \<open>
  The standard library's parser of dotted-quad text (CPython 3.9.5 and later): exactly four
  octets, each one to three ASCII digits, no leading zero, at most 255. An address is its
  32-bit value, which is what equality and set membership of \<open>IPv4Address\<close> compare.
\<close>

definition isdigit :: "char \<Rightarrow> bool" where
  "isdigit c = (let n = (of_char c :: nat) in 48 \<le> n \<and> n \<le> 57)"

definition digits_val :: "string \<Rightarrow> nat" where
  "digits_val s = foldl (\<lambda>a c. 10 * a + (of_char c - 48)) 0 s"

definition parse_octet :: "string \<Rightarrow> error + nat" where
  "parse_octet s =
     (if s = [] then Inl AddressValueError
      else if \<not> list_all isdigit s then Inl AddressValueError
      else if length s > 3 then Inl AddressValueError
      else if s \<noteq> ''0'' \<and> hd s = CHR ''0'' then Inl AddressValueError
      else if digits_val s > 255 then Inl AddressValueError
      else Inr (digits_val s))"

fun parse_octets :: "string list \<Rightarrow> error + nat list" where
  "parse_octets [] = Inr []"
| "parse_octets (s # ss) =
     (case parse_octet s of Inl e \<Rightarrow> Inl e
      | Inr n \<Rightarrow> (case parse_octets ss of Inl e \<Rightarrow> Inl e | Inr ns \<Rightarrow> Inr (n # ns)))"

definition from_bytes :: "nat list \<Rightarrow> nat" where
  "from_bytes ns = foldl (\<lambda>a n. 256 * a + n) 0 ns"

definition IPv4Address :: "string \<Rightarrow> error + nat" where
  "IPv4Address s =
     (if CHR ''/'' \<in> set s then Inl AddressValueError
      else if s = [] then Inl AddressValueError
      else let octets = split_on (CHR ''.'') s
           in if length octets \<noteq> 4 then Inl AddressValueError
              else (case parse_octets octets of Inl e \<Rightarrow> Inl e | Inr ns \<Rightarrow> Inr (from_bytes ns)))"

definition ip4 :: "nat \<Rightarrow> nat \<Rightarrow> nat \<Rightarrow> nat \<Rightarrow> nat" where
  "ip4 a b c d = from_bytes [a, b, c, d]"

definition SERVER_IP :: nat where
  "SERVER_IP = ip4 10 8 0 1"

section \<open>The regular expressions of the module\<close>

text \<open>
  The fragment of \<open>re\<close> the module uses, with the matcher of \<open>re\<close>: a backtracking search
  that tries the alternatives of every quantifier in priority order (greedy: longest first,
  lazy: shortest first) and keeps the first way the whole pattern matches. All quantifiers of
  the module apply to a single character class. \<open>AnyChar\<close> is \<open>.\<close> under \<open>DOTALL\<close>, \<open>NotNL\<close>
  is \<open>.\<close> without it, \<open>Bol\<close> is \<open>^\<close> under \<open>MULTILINE\<close>, \<open>EndZ\<close> is \<open>\Z\<close>, \<open>Look\<close> is \<open>(?=...)\<close>.
\<close>

datatype cclass = AnyChar | NotNL | Space | Ch char

fun cc :: "cclass \<Rightarrow> char \<Rightarrow> bool" where
  "cc AnyChar c = True"
| "cc NotNL c = (c \<noteq> NL)"
| "cc Space c = isspace c"
| "cc (Ch d) c = (c = d)"

datatype rx =
    Lit string
  | Star cclass
  | Plus cclass
  | LazyStar cclass
  | LazyPlus cclass
  | Opt cclass
  | Group nat rx
  | Seq rx rx
  | Alt rx rx
  | Look rx
  | Bol
  | EndZ

text \<open>
  A matcher state: the character before the current position (\<open>None\<close> at the start of the
  text), the text from the current position on, and the groups captured so far (latest first).
\<close>

type_synonym mstate = "char option \<times> string \<times> (nat \<times> string) list"

fun greedy :: "cclass \<Rightarrow> (mstate \<Rightarrow> mstate option) \<Rightarrow> mstate \<Rightarrow> mstate option" where
  "greedy cl k (p, [], c) = k (p, [], c)"
| "greedy cl k (p, x # xs, c) =
     (if cc cl x
      then (case greedy cl k (Some x, xs, c) of Some r \<Rightarrow> Some r | None \<Rightarrow> k (p, x # xs, c))
      else k (p, x # xs, c))"

fun lazy :: "cclass \<Rightarrow> (mstate \<Rightarrow> mstate option) \<Rightarrow> mstate \<Rightarrow> mstate option" where
  "lazy cl k (p, [], c) = k (p, [], c)"
| "lazy cl k (p, x # xs, c) =
     (case k (p, x # xs, c) of Some r \<Rightarrow> Some r
      | None \<Rightarrow> if cc cl x then lazy cl k (Some x, xs, c) else None)"

fun one :: "cclass \<Rightarrow> (mstate \<Rightarrow> mstate option) \<Rightarrow> mstate \<Rightarrow> mstate option" where
  "one cl k (p, [], c) = None"
| "one cl k (p, x # xs, c) = (if cc cl x then k (Some x, xs, c) else None)"

primrec m :: "rx \<Rightarrow> (mstate \<Rightarrow> mstate option) \<Rightarrow> mstate \<Rightarrow> mstate option" where
  "m (Lit w) k st =
     (case st of (p, s, c) \<Rightarrow>
        if prefix w s then k (if w = [] then p else Some (last w), drop (length w) s, c)
        else None)"
| "m (Star cl) k st = greedy cl k st"
| "m (Plus cl) k st = one cl (greedy cl k) st"
| "m (LazyStar cl) k st = lazy cl k st"
| "m (LazyPlus cl) k st = one cl (lazy cl k) st"
| "m (Opt cl) k st = (case one cl k st of Some r \<Rightarrow> Some r | None \<Rightarrow> k st)"
| "m (Group n r) k st =
     m r (\<lambda>(p', s', c').
            k (p', s', (n, take (length (fst (snd st)) - length s') (fst (snd st))) # c')) st"
| "m (Seq a b) k st = m a (m b k) st"
| "m (Alt a b) k st = (case m a k st of Some r \<Rightarrow> Some r | None \<Rightarrow> m b k st)"
| "m (Look r) k st = (case m r Some st of Some u \<Rightarrow> k st | None \<Rightarrow> None)"
| "m Bol k st = (case st of (p, s, c) \<Rightarrow> if p = None \<or> p = Some NL then k st else None)"
| "m EndZ k st = (case st of (p, s, c) \<Rightarrow> if s = [] then k st else None)"

fun seqs :: "rx list \<Rightarrow> rx" where
  "seqs [] = Lit []"
| "seqs [r] = r"
| "seqs (r # rs) = Seq r (seqs rs)"

text \<open>One attempt at the current position: the state after the match, with its groups.\<close>

definition match_here :: "rx \<Rightarrow> char option \<Rightarrow> string \<Rightarrow> mstate option" where
  "match_here r p s = m r Some (p, s, [])"

definition group :: "(nat \<times> string) list \<Rightarrow> nat \<Rightarrow> string" where
  "group c n = (case map_of c n of Some g \<Rightarrow> g | None \<Rightarrow> [])"

text \<open>
  \<open>pattern.search\<close>: the leftmost position where the pattern matches. \<open>pattern.finditer\<close>
  and \<open>pattern.subn\<close> with the empty replacement: the non-overlapping matches from left to
  right, each search resuming where the last match ended. No pattern of the module matches
  the empty string; the branch for a match that consumed nothing moves one character on, so
  that the scan is total.
\<close>

fun search_from :: "rx \<Rightarrow> char option \<Rightarrow> string \<Rightarrow> (nat \<times> string) list option" where
  "search_from r p [] = (case match_here r p [] of Some (p', s', c) \<Rightarrow> Some c | None \<Rightarrow> None)"
| "search_from r p (x # xs) =
     (case match_here r p (x # xs) of Some (p', s', c) \<Rightarrow> Some c
      | None \<Rightarrow> search_from r (Some x) xs)"

definition search :: "rx \<Rightarrow> string \<Rightarrow> (nat \<times> string) list option" where
  "search r s = search_from r None s"

function finditer_from :: "rx \<Rightarrow> char option \<Rightarrow> string \<Rightarrow> (nat \<times> string) list list" where
  "finditer_from r p s =
     (case match_here r p s of
        Some (p', s', c) \<Rightarrow>
          if length s' < length s then c # finditer_from r p' s'
          else (case s of [] \<Rightarrow> [c] | x # xs \<Rightarrow> c # finditer_from r (Some x) xs)
      | None \<Rightarrow> (case s of [] \<Rightarrow> [] | x # xs \<Rightarrow> finditer_from r (Some x) xs))"
  by pat_completeness auto
termination
  by (relation "measure (\<lambda>(r, p, s). length s)") auto

declare finditer_from.simps [simp del]

definition finditer :: "rx \<Rightarrow> string \<Rightarrow> (nat \<times> string) list list" where
  "finditer r s = finditer_from r None s"

function subn_from :: "rx \<Rightarrow> char option \<Rightarrow> string \<Rightarrow> string \<times> nat" where
  "subn_from r p s =
     (case match_here r p s of
        Some (p', s', c) \<Rightarrow>
          if length s' < length s
          then (case subn_from r p' s' of (t, n) \<Rightarrow> (t, Suc n))
          else (case s of [] \<Rightarrow> ([], 1)
                | x # xs \<Rightarrow> (case subn_from r (Some x) xs of (t, n) \<Rightarrow> (x # t, Suc n)))
      | None \<Rightarrow>
          (case s of [] \<Rightarrow> ([], 0)
           | x # xs \<Rightarrow> (case subn_from r (Some x) xs of (t, n) \<Rightarrow> (x # t, n))))"
  by pat_completeness auto
termination
  by (relation "measure (\<lambda>(r, p, s). length s)") auto

declare subn_from.simps [simp del]

text \<open>\<open>pattern.subn("", s)\<close>: the text without the matches, and their number.\<close>

definition subn_empty :: "rx \<Rightarrow> string \<Rightarrow> string \<times> nat" where
  "subn_empty r s = subn_from r None s"

section \<open>wg\_parser: patterns and data model\<close>

definition PEER_PATTERN :: rx where
  "PEER_PATTERN = seqs
     [Bol, Lit ''# '', Plus (Ch (CHR ''='')), Lit (NL # ''# ClientName: ''),
      Group 1 (LazyPlus AnyChar), Lit (NL # ''# AddedAt: ''),
      Group 2 (LazyPlus AnyChar), Lit (NL # ''# ''), Plus (Ch (CHR ''='')),
      Lit (NL # ''[Peer]'' @ [NL]),
      Group 3 (LazyStar AnyChar),
      Look (Alt (Seq (Lit (NL # ''# '')) (Plus (Ch (CHR ''='')))) EndZ)]"

definition field_pattern :: "string \<Rightarrow> rx" where
  "field_pattern key = seqs
     [Lit key, Star Space, Lit ''='', Star Space, Group 1 (Plus NotNL)]"

definition ENDPOINT_PATTERN :: rx where
  "ENDPOINT_PATTERN = field_pattern ''Endpoint''"

definition PUBKEY_PATTERN :: rx where
  "PUBKEY_PATTERN = field_pattern ''PublicKey''"

definition ALLOWED_IPS_PATTERN :: rx where
  "ALLOWED_IPS_PATTERN = field_pattern ''AllowedIPs''"

definition PRESHARED_KEY_PATTERN :: rx where
  "PRESHARED_KEY_PATTERN = field_pattern ''PresharedKey''"

record WgPeer =
  name :: string
  public_key :: string
  allowed_ips :: string
  added_at :: string
  endpoint :: "string option"
  preshared_key :: "string option"
  latest_handshake :: "int option"
  transfer_rx :: "int option"
  transfer_tx :: "int option"

text \<open>
  The backing file: \<open>None\<close> when the path does not exist, otherwise the text it holds.
  \<open>read_config\<close> is \<open>Path.read_text\<close>, which translates line ends; \<open>write_config\<close> is
  \<open>Path.write_text\<close>, which on a POSIX system writes the text as it is.
\<close>

type_synonym store = "string option"

definition read_config :: "store \<Rightarrow> error + string" where
  "read_config st =
     (case st of None \<Rightarrow> Inl FileNotFoundError | Some t \<Rightarrow> Inr (universal_newlines t))"

definition write_config :: "store \<Rightarrow> string \<Rightarrow> store" where
  "write_config st content = Some content"

section \<open>wg\_parser: decoding\<close>

text \<open>The body of the loop of \<open>parse_peers\<close>, for one match of \<open>PEER_PATTERN\<close>.\<close>

definition peer_of_match :: "(nat \<times> string) list \<Rightarrow> WgPeer option" where
  "peer_of_match mt =
     (let nm = strip (group mt 1);
          added = strip (group mt 2);
          block = group mt 3;
          pubkey_match = search PUBKEY_PATTERN block;
          allowed_ips_match = search ALLOWED_IPS_PATTERN block;
          endpoint_match = search ENDPOINT_PATTERN block;
          psk_match = search PRESHARED_KEY_PATTERN block
      in case (pubkey_match, allowed_ips_match) of
           (Some pk, Some al) \<Rightarrow>
             Some \<lparr> name = nm,
                    public_key = strip (group pk 1),
                    allowed_ips = strip (group al 1),
                    added_at = added,
                    endpoint = map_option (\<lambda>e. strip (group e 1)) endpoint_match,
                    preshared_key = map_option (\<lambda>e. strip (group e 1)) psk_match,
                    latest_handshake = None, transfer_rx = None, transfer_tx = None \<rparr>
         | _ \<Rightarrow> None)"

text \<open>\<open>parse_peers\<close> on a given text, and with the optional argument as in the source.\<close>

definition parse_text :: "string \<Rightarrow> WgPeer list" where
  "parse_text content = List.map_filter peer_of_match (finditer PEER_PATTERN content)"

definition parse_peers :: "store \<Rightarrow> string option \<Rightarrow> error + WgPeer list" where
  "parse_peers st content =
     (case content of
        Some c \<Rightarrow> Inr (parse_text c)
      | None \<Rightarrow> (case read_config st of Inl e \<Rightarrow> Inl e | Inr c \<Rightarrow> Inr (parse_text c)))"

section \<open>wg\_parser: the address pool\<close>

text \<open>The loop of \<open>get_used_ips\<close>: an unparseable entry is skipped.\<close>

fun add_used :: "WgPeer list \<Rightarrow> nat set \<Rightarrow> nat set" where
  "add_used [] used = used"
| "add_used (p # ps) used =
     (case IPv4Address (host_part (allowed_ips p)) of
        Inl e \<Rightarrow> add_used ps used
      | Inr a \<Rightarrow> add_used ps (insert a used))"

definition get_used_ips :: "store \<Rightarrow> string option \<Rightarrow> error + nat set" where
  "get_used_ips st content =
     (case parse_peers st content of Inl e \<Rightarrow> Inl e
      | Inr peers \<Rightarrow> Inr (add_used peers {SERVER_IP}))"

text \<open>The loop \<open>for i in range(2, 255)\<close> of \<open>get_next_available_ip\<close>.\<close>

fun first_free :: "nat set \<Rightarrow> nat list \<Rightarrow> error + nat" where
  "first_free used [] = Inl PoolExhausted"
| "first_free used (i # is) =
     (case IPv4Address (''10.8.0.'' @ str_nat i) of
        Inl e \<Rightarrow> Inl e
      | Inr candidate \<Rightarrow> if candidate \<notin> used then Inr candidate else first_free used is)"

definition get_next_available_ip :: "store \<Rightarrow> string option \<Rightarrow> error + nat" where
  "get_next_available_ip st content =
     (case get_used_ips st content of Inl e \<Rightarrow> Inl e
      | Inr used_ips \<Rightarrow> first_free used_ips [2..<255])"

definition check_ip_conflict :: "store \<Rightarrow> string \<Rightarrow> string option \<Rightarrow> error + bool" where
  "check_ip_conflict st ip content =
     (case IPv4Address (host_part ip) of
        Inl e \<Rightarrow> Inl (InvalidAddress ip)
      | Inr target_ip \<Rightarrow>
          (case get_used_ips st content of Inl e \<Rightarrow> Inl e
           | Inr used_ips \<Rightarrow> Inr (target_ip \<in> used_ips)))"

definition check_name_conflict :: "store \<Rightarrow> string \<Rightarrow> string option \<Rightarrow> error + bool" where
  "check_name_conflict st nm content =
     (case parse_peers st content of Inl e \<Rightarrow> Inl e
      | Inr peers \<Rightarrow> Inr (list_ex (\<lambda>p. name p = nm) peers))"

section \<open>wg\_parser: encoding and mutation\<close>

definition BANNER :: string where
  "BANNER = ''# '' @ replicate 42 (CHR ''='')"

text \<open>An optional argument is written only when it is truthy: neither \<open>None\<close> nor empty.\<close>

definition truthy :: "string option \<Rightarrow> bool" where
  "truthy v = (case v of None \<Rightarrow> False | Some s \<Rightarrow> s \<noteq> [])"

definition generate_peer_block ::
  "string \<Rightarrow> string \<Rightarrow> string \<Rightarrow> string \<Rightarrow> string option \<Rightarrow> string option \<Rightarrow> string" where
  "generate_peer_block nm pubkey assigned_ip added ep psk =
     join_nl
       ([[], BANNER, ''# ClientName: '' @ nm, ''# AddedAt: '' @ added, BANNER, ''[Peer]'',
         ''PublicKey = '' @ pubkey, ''AllowedIPs = '' @ assigned_ip @ ''/32'']
        @ (if truthy psk then [''PresharedKey = '' @ the psk] else [])
        @ (if truthy ep then [''Endpoint = '' @ the ep] else []))"

text \<open>\<open>add_peer\<close> and \<open>remove_peer\<close> return their result and the file after the call.\<close>

definition add_peer ::
  "store \<Rightarrow> string \<Rightarrow> string \<Rightarrow> string \<Rightarrow> string \<Rightarrow> string option \<Rightarrow> string option
     \<Rightarrow> (error + unit) \<times> store" where
  "add_peer st nm pubkey assigned_ip added ep psk =
     (case read_config st of
        Inl e \<Rightarrow> (Inl e, st)
      | Inr content \<Rightarrow>
          (case check_name_conflict st nm (Some content) of
             Inl e \<Rightarrow> (Inl e, st)
           | Inr True \<Rightarrow> (Inl (NameConflict nm), st)
           | Inr False \<Rightarrow>
               (case check_ip_conflict st assigned_ip (Some content) of
                  Inl e \<Rightarrow> (Inl e, st)
                | Inr True \<Rightarrow> (Inl (AddressConflict assigned_ip), st)
                | Inr False \<Rightarrow>
                    (let peer_block = generate_peer_block nm pubkey assigned_ip added ep psk;
                         new_content = rstrip content @ [NL] @ peer_block @ [NL]
                     in (Inr (), write_config st new_content)))))"

text \<open>\<open>re.escape(name)\<close> is the pattern that matches exactly the text \<open>name\<close>.\<close>

definition remove_pattern :: "string \<Rightarrow> rx" where
  "remove_pattern nm = seqs
     [Opt (Ch NL), Lit ''# '', Plus (Ch (CHR ''='')), Lit (NL # ''# ClientName: ''),
      Lit nm, Lit (NL # ''# AddedAt: ''),
      LazyPlus AnyChar, Lit (NL # ''# ''), Plus (Ch (CHR ''='')),
      Lit (NL # ''[Peer]'' @ [NL]),
      LazyStar AnyChar,
      Look (Alt (Seq (Lit (NL # ''# '')) (Plus (Ch (CHR ''='')))) EndZ)]"

definition remove_peer :: "store \<Rightarrow> string \<Rightarrow> (error + bool) \<times> store" where
  "remove_peer st nm =
     (case read_config st of
        Inl e \<Rightarrow> (Inl e, st)
      | Inr content \<Rightarrow>
          (case subn_empty (remove_pattern nm) content of
             (new_content, count) \<Rightarrow>
               if count = 0 then (Inr False, st)
               else (Inr True, write_config st new_content)))"

definition get_p2p_candidates :: "store \<Rightarrow> string option \<Rightarrow> error + WgPeer list" where
  "get_p2p_candidates st content =
     (case parse_peers st content of Inl e \<Rightarrow> Inl e
      | Inr peers \<Rightarrow> Inr (filter (\<lambda>p. endpoint p \<noteq> None) peers))"

section \<open>Runtime status and the list endpoint\<close>

text \<open>
  \<open>get_runtime_status\<close> asks the external \<open>wg\<close> tool; its answer, a dictionary keyed by
  public key, is a parameter here.
\<close>

record rt_info =
  rt_latest_handshake :: "int option"
  rt_transfer_rx :: int
  rt_transfer_tx :: int

definition get_peers_with_status :: "store \<Rightarrow> (string \<rightharpoonup> rt_info) \<Rightarrow> error + WgPeer list" where
  "get_peers_with_status st runtime =
     (case parse_peers st None of Inl e \<Rightarrow> Inl e
      | Inr peers \<Rightarrow>
          Inr (map (\<lambda>p. case runtime (public_key p) of
                         None \<Rightarrow> p
                       | Some info \<Rightarrow>
                           p\<lparr> latest_handshake := rt_latest_handshake info,
                              transfer_rx := Some (rt_transfer_rx info),
                              transfer_tx := Some (rt_transfer_tx info) \<rparr>) peers))"

record PeerInfo =
  pi_name :: string
  pi_public_key :: string
  pi_allowed_ips :: string
  pi_added_at :: string
  pi_endpoint :: "string option"
  pi_latest_handshake :: "int option"
  pi_transfer_rx :: "int option"
  pi_transfer_tx :: "int option"

record PeerListResponse =
  success :: bool
  count :: nat
  peers :: "PeerInfo list"

definition peer_info :: "WgPeer \<Rightarrow> PeerInfo" where
  "peer_info p =
     \<lparr> pi_name = name p, pi_public_key = public_key p, pi_allowed_ips = allowed_ips p,
       pi_added_at = added_at p, pi_endpoint = endpoint p,
       pi_latest_handshake = latest_handshake p, pi_transfer_rx = transfer_rx p,
       pi_transfer_tx = transfer_tx p \<rparr>"

text \<open>The handler \<open>list_peers\<close> of the router: a missing file is an empty list.\<close>

definition list_peers :: "store \<Rightarrow> (string \<rightharpoonup> rt_info) \<Rightarrow> PeerListResponse" where
  "list_peers st runtime =
     (case get_peers_with_status st runtime of
        Inl e \<Rightarrow> \<lparr> success = True, count = 0, peers = [] \<rparr>
      | Inr ps \<Rightarrow>
          (let peer_infos = map peer_info ps
           in \<lparr> success = True, count = length peer_infos, peers = peer_infos \<rparr>))"

section \<open>dns\_server\<close>

record InternalDNSServer =
  listen_address :: string
  listen_port :: nat
  domain_suffix :: string

definition new_dns_server :: "string \<Rightarrow> nat \<Rightarrow> string \<Rightarrow> InternalDNSServer" where
  "new_dns_server addr port sfx =
     \<lparr> listen_address = addr, listen_port = port, domain_suffix = lower sfx \<rparr>"

definition QTYPE_A :: int where
  "QTYPE_A = 1"

fun add_names :: "WgPeer list \<Rightarrow> (string \<rightharpoonup> string) \<Rightarrow> (string \<rightharpoonup> string)" where
  "add_names [] mapping = mapping"
| "add_names (p # ps) mapping =
     add_names ps (mapping(lower (name p) \<mapsto> host_part (allowed_ips p)))"

definition get_name_to_ip_mapping :: "store \<Rightarrow> (string \<rightharpoonup> string)" where
  "get_name_to_ip_mapping st =
     (let mapping = (case parse_peers st None of
                       Inl e \<Rightarrow> Map.empty
                     | Inr ps \<Rightarrow> add_names ps Map.empty)
      in mapping(''server'' \<mapsto> ''10.8.0.1'', ''gateway'' \<mapsto> ''10.8.0.1''))"

definition resolve_query :: "InternalDNSServer \<Rightarrow> store \<Rightarrow> string \<Rightarrow> int \<Rightarrow> string option" where
  "resolve_query srv st qname qtype =
     (let qname = rstrip_chars ''.'' (lower qname)
      in if qtype \<noteq> QTYPE_A then None
         else if \<not> endswith qname (domain_suffix srv) then None
         else let device_name = slice_to_neg qname (length (domain_suffix srv))
              in get_name_to_ip_mapping st device_name)"

text \<open>A document with three peers, at \<open>.5\<close>, \<open>.6\<close> and \<open>.7\<close>.\<close>

definition three_peers :: string where
  "three_peers =
     ''[Interface]\<newline>Address = 10.8.0.1/24\<newline>\<newline>'' @
     ''# ==\<newline># ClientName: macbook-pro\<newline># AddedAt: 2026-01-27\<newline># ==\<newline>[Peer]\<newline>'' @
     ''PublicKey = KEY1\<newline>AllowedIPs = 10.8.0.5/32\<newline>\<newline>'' @
     ''# ==\<newline># ClientName: home-nas\<newline># AddedAt: 2026-01-27\<newline># ==\<newline>[Peer]\<newline>'' @
     ''PublicKey = KEY2\<newline>AllowedIPs = 10.8.0.6/32\<newline>Endpoint = nas.myhome.com:51820\<newline>\<newline>'' @
     ''# ==\<newline># ClientName: phone-android\<newline># AddedAt: 2026-01-28\<newline># ==\<newline>[Peer]\<newline>'' @
     ''PublicKey = KEY3\<newline>AllowedIPs = 10.8.0.7/32\<newline>PresharedKey = PSK\<newline>''"

text \<open>A document whose only peer is named \<open>SeRvEr\<close>, at \<open>.9\<close>.\<close>

definition server_peer :: string where
  "server_peer =
     ''# ==\<newline># ClientName: SeRvEr\<newline># AddedAt: 2026-01-27\<newline># ==\<newline>[Peer]\<newline>'' @
     ''PublicKey = KEY1\<newline>AllowedIPs = 10.8.0.9/32\<newline>''"

section \<open>Documents made of peer blocks\<close>

text \<open>
  The layout that \<open>add_peer\<close> writes and \<open>parse_peers\<close> reads: some text that is not a peer
  block, then the blocks, each one a blank line start, the banner, the two header lines, the
  banner, the \<open>[Peer]\<close> line and a body. \<open>generate_peer_block\<close> renders such a block.
\<close>

definition block_text :: "string \<Rightarrow> string \<Rightarrow> string \<Rightarrow> string" where
  "block_text n d body =
     NL # BANNER @ NL # ''# ClientName: '' @ n @ NL # ''# AddedAt: '' @ d @ NL # BANNER
       @ NL # ''[Peer]'' @ NL # body"

definition blocks_text :: "(string \<times> string \<times> string) list \<Rightarrow> string" where
  "blocks_text bs = concat (map (\<lambda>(n, d, body). block_text n d body) bs)"

text \<open>
  A header value is one non-empty line; a plain text has no banner start \<open># =\<close> in it; in an
  unbroken text no line end is followed by a banner start.
\<close>

definition line :: "string \<Rightarrow> bool" where
  "line s = (s \<noteq> [] \<and> NL \<notin> set s)"

definition plain :: "string \<Rightarrow> bool" where
  "plain s = (\<not> sublist ''# ='' s)"

definition unbroken :: "string \<Rightarrow> bool" where
  "unbroken s = (\<not> sublist (NL # ''# ='') s)"

definition wf_block :: "string \<times> string \<times> string \<Rightarrow> bool" where
  "wf_block b = (case b of (n, d, body) \<Rightarrow> line n \<and> line d \<and> unbroken body)"

text \<open>
  Auxiliary notions for the proofs about the matcher: a continuation that accepts a text up
  to a given rest, adding given groups; a stretch of text in which no occurrence of a word
  starts.
\<close>

definition accepts ::
  "(mstate \<Rightarrow> mstate option) \<Rightarrow> string \<Rightarrow> string \<Rightarrow> (nat \<times> string) list \<Rightarrow> bool" where
  "accepts k t s cs = (\<forall>q c. \<exists>p'. k (q, t, c) = Some (p', s, cs @ c))"

definition nl_only :: "(mstate \<Rightarrow> mstate option) \<Rightarrow> bool" where
  "nl_only k = (\<forall>q t c. \<not> prefix [NL] t \<longrightarrow> k (q, t, c) = None)"

definition quiet :: "string \<Rightarrow> string \<Rightarrow> string \<Rightarrow> bool" where
  "quiet w u s = (\<forall>u1 u2. u = u1 @ u2 \<and> u2 \<noteq> [] \<longrightarrow> \<not> prefix w (u2 @ s))"

definition lookahead :: rx where
  "lookahead = Look (Alt (Seq (Lit (NL # ''# '')) (Plus (Ch (CHR ''='')))) EndZ)"

text \<open>What \<open>parse_peers\<close> makes of one block: \<open>peer_of_match\<close> on the three groups.\<close>

definition block_record :: "string \<times> string \<times> string \<Rightarrow> WgPeer option" where
  "block_record b = (case b of (n, d, body) \<Rightarrow> peer_of_match [(3, body), (2, d), (1, n)])"

text \<open>Three blocks, the second without an \<open>AllowedIPs\<close> line.\<close>

definition demo_blocks :: "(string \<times> string \<times> string) list" where
  "demo_blocks =
     [(''laptop'', ''2026-01-27'', ''PublicKey = KEY1\<newline>AllowedIPs = 10.8.0.5/32\<newline>''),
      (''broken'', ''2026-01-28'', ''PublicKey = KEY2\<newline>''),
      (''phone'', ''2026-01-29'', ''PublicKey = KEY3\<newline>AllowedIPs = 10.8.0.7/32\<newline>'')]"

text \<open>
  A block whose body is empty, and a block with both mandatory entries.
\<close>

definition empty_block :: string where
  "empty_block = ''# ==\<newline># ClientName: broken\<newline># AddedAt: 2026-01-27\<newline># ==\<newline>[Peer]\<newline>''"

definition good_block :: string where
  "good_block =
     ''# ==\<newline># ClientName: laptop\<newline># AddedAt: 2026-01-28\<newline># ==\<newline>[Peer]\<newline>'' @
     ''PublicKey = KEY1\<newline>AllowedIPs = 10.8.0.5/32\<newline>''"

text \<open>
  The body that \<open>generate_peer_block\<close> renders below the \<open>[Peer]\<close> line, and the values that
  come back from it unchanged: one line, no white space at either end, none of the later keys
  inside.
\<close>

definition peer_body :: "string \<Rightarrow> string \<Rightarrow> string option \<Rightarrow> string option \<Rightarrow> string" where
  "peer_body pubkey assigned_ip ep psk =
     join_nl
       ([''PublicKey = '' @ pubkey, ''AllowedIPs = '' @ assigned_ip @ ''/32'']
        @ (if truthy psk then [''PresharedKey = '' @ the psk] else [])
        @ (if truthy ep then [''Endpoint = '' @ the ep] else []))"

definition clean :: "string \<Rightarrow> bool" where
  "clean s = (line s \<and> \<not> isspace (hd s) \<and> \<not> isspace (last s))"

definition keyless :: "string \<Rightarrow> bool" where
  "keyless s =
     (\<not> sublist ''AllowedIPs'' s \<and> \<not> sublist ''PresharedKey'' s \<and> \<not> sublist ''Endpoint'' s)"

definition entry :: "string \<Rightarrow> bool" where
  "entry s = (clean s \<and> keyless s)"

definition opt_entry :: "string option \<Rightarrow> bool" where
  "opt_entry v = (case v of None \<Rightarrow> True | Some s \<Rightarrow> entry s)"

definition peer_record ::
  "string \<Rightarrow> string \<Rightarrow> string \<Rightarrow> string \<Rightarrow> string option \<Rightarrow> string option \<Rightarrow> WgPeer" where
  "peer_record nm pubkey assigned_ip added ep psk =
     \<lparr> name = nm, public_key = pubkey, allowed_ips = assigned_ip @ ''/32'', added_at = added,
       endpoint = ep, preshared_key = psk,
       latest_handshake = None, transfer_rx = None, transfer_tx = None \<rparr>"



text \<open>Values without a carriage return: what is written is what is read back.\<close>

definition no_cr :: "string \<Rightarrow> bool" where
  "no_cr s = (CR \<notin> set s)"

definition opt_no_cr :: "string option \<Rightarrow> bool" where
  "opt_no_cr v = (case v of None \<Rightarrow> True | Some s \<Rightarrow> CR \<notin> set s)"

text \<open>
  A document with one peer, as \<open>add_peer\<close> leaves it; a file that ends with empty lines; a
  file with the line ends of another system.
\<close>

definition one_peer :: string where
  "one_peer =
     ''[Interface]\<newline>Address = 10.8.0.1/24\<newline>'' @
     blocks_text [(''laptop'', ''2026-01-27'', ''PublicKey = KEY1\<newline>AllowedIPs = 10.8.0.5/32\<newline>'')]"

definition blank_end :: string where
  "blank_end = ''[Interface]\<newline>\<newline>\<newline>''"

definition crlf_file :: string where
  "crlf_file = ''[Interface]'' @ [CR, NL]"

text \<open>
  For \<open>remove_peer\<close>: the pattern after its optional leading line end; a stretch of text in
  which the pattern matches nowhere; the blocks among which a name is looked for, whose
  header values and bodies have no banner start and whose name is listed as it is written.
\<close>

definition remove_core :: "string \<Rightarrow> rx" where
  "remove_core nm = seqs
     [Lit ''# '', Plus (Ch (CHR ''='')), Lit (NL # ''# ClientName: ''),
      Lit nm, Lit (NL # ''# AddedAt: ''),
      LazyPlus AnyChar, Lit (NL # ''# ''), Plus (Ch (CHR ''='')),
      Lit (NL # ''[Peer]'' @ [NL]),
      LazyStar AnyChar,
      Look (Alt (Seq (Lit (NL # ''# '')) (Plus (Ch (CHR ''='')))) EndZ)]"

definition dead :: "rx \<Rightarrow> string \<Rightarrow> string \<Rightarrow> bool" where
  "dead r u s = (\<forall>u1 u2 q. u = u1 @ u2 \<and> u2 \<noteq> [] \<longrightarrow> match_here r q (u2 @ s) = None)"

definition rm_block :: "string \<times> string \<times> string \<Rightarrow> bool" where
  "rm_block b =
     (case b of (n, d, body) \<Rightarrow> clean n \<and> plain n \<and> line d \<and> plain d \<and> plain body)"

text \<open>
  A block whose header name ends with a space; two blocks and a name that runs over several
  lines, from the name of the first block to the name line of the second; blocks whose names
  differ in a character that a regular expression would treat as a wildcard or a class.
\<close>

definition spaced_name :: string where
  "spaced_name =
     ''# ==\<newline># ClientName: laptop \<newline># AddedAt: 2026-01-28\<newline># ==\<newline>[Peer]\<newline>'' @
     ''PublicKey = KEY1\<newline>AllowedIPs = 10.8.0.5/32\<newline>''"

definition two_blocks :: string where
  "two_blocks =
     ''# ==\<newline># ClientName: a\<newline># AddedAt: 1\<newline># ==\<newline>[Peer]\<newline>'' @
     ''PublicKey = K1\<newline>AllowedIPs = 10.8.0.5/32\<newline>\<newline>'' @
     ''# ==\<newline># ClientName: b\<newline># AddedAt: 2\<newline># ==\<newline>[Peer]\<newline>'' @
     ''PublicKey = K2\<newline>AllowedIPs = 10.8.0.6/32\<newline>''"

definition long_name :: string where
  "long_name =
     ''a\<newline># AddedAt: 1\<newline># ==\<newline>[Peer]\<newline>'' @
     ''PublicKey = K1\<newline>AllowedIPs = 10.8.0.5/32\<newline>\<newline>'' @
     ''# ==\<newline># ClientName: b''"

definition meta_blocks :: "(string \<times> string \<times> string) list" where
  "meta_blocks =
     [(''aXb'', ''2026-01-27'', ''PublicKey = KEY1\<newline>AllowedIPs = 10.8.0.5/32\<newline>''),
      (''a.b'', ''2026-01-28'', ''PublicKey = KEY2\<newline>AllowedIPs = 10.8.0.6/32\<newline>''),
      (''dev1'', ''2026-01-29'', ''PublicKey = KEY3\<newline>AllowedIPs = 10.8.0.7/32\<newline>'')]"

section \<open>Line ends\<close>

lemma universal_newlines_id: "CR \<notin> set t \<Longrightarrow> universal_newlines t = t"
  by (induction t rule: universal_newlines.induct) auto

lemma universal_newlines_no_cr: "CR \<notin> set (universal_newlines t)"
  by (induction t rule: universal_newlines.induct) auto

lemma read_config_Some: "read_config (Some t) = Inr (universal_newlines t)"
  by (simp add: read_config_def)

lemma read_config_id: "CR \<notin> set t \<Longrightarrow> read_config (Some t) = Inr t"
  by (simp add: read_config_def universal_newlines_id)

lemma no_cr_examples: "CR \<notin> set three_peers" "CR \<notin> set server_peer"
  by (simp_all add: three_peers_def server_peer_def)

section \<open>Addresses of the pool\<close>

lemma of_char_digit: "d < 10 \<Longrightarrow> (of_char (digit_char d) :: nat) = 48 + d"
  by (simp add: digit_char_def)

lemma digit_char_facts:
  assumes "d < 10"
  shows "isdigit (digit_char d)" "digit_char d \<noteq> CHR ''.''" "digit_char d \<noteq> CHR ''/''"
    "(digit_char d = CHR ''0'') = (d = 0)"
    "CHR ''.'' \<noteq> digit_char d" "CHR ''/'' \<noteq> digit_char d"
proof -
  have e: "(of_char (digit_char d) :: nat) = 48 + d" using assms by (rule of_char_digit)
  show "isdigit (digit_char d)" using assms by (simp add: isdigit_def e)
  have "(of_char (digit_char d) :: nat) \<noteq> of_char (CHR ''.'')" by (simp add: e)
  then show "digit_char d \<noteq> CHR ''.''" by metis
  have "(of_char (digit_char d) :: nat) \<noteq> of_char (CHR ''/'')" by (simp add: e)
  then show "digit_char d \<noteq> CHR ''/''" by metis
  have "((of_char (digit_char d) :: nat) = of_char (CHR ''0'')) = (d = 0)" by (simp add: e)
  then show "(digit_char d = CHR ''0'') = (d = 0)" by (metis of_char_eq_iff)
  show "CHR ''.'' \<noteq> digit_char d" using \<open>digit_char d \<noteq> CHR ''.''\<close> by (rule not_sym)
  show "CHR ''/'' \<noteq> digit_char d" using \<open>digit_char d \<noteq> CHR ''/''\<close> by (rule not_sym)
qed

lemma str_nat_cases:
  "i < 10 \<Longrightarrow> str_nat i = [digit_char i]"
  "10 \<le> i \<Longrightarrow> i < 100 \<Longrightarrow> str_nat i = [digit_char (i div 10), digit_char (i mod 10)]"
  "100 \<le> i \<Longrightarrow> i < 1000 \<Longrightarrow>
     str_nat i = [digit_char (i div 10 div 10), digit_char (i div 10 mod 10), digit_char (i mod 10)]"
proof -
  show a: "\<And>i. i < 10 \<Longrightarrow> str_nat i = [digit_char i]"
    by (subst str_nat.simps) simp
  show b: "\<And>i. 10 \<le> i \<Longrightarrow> i < 100 \<Longrightarrow> str_nat i = [digit_char (i div 10), digit_char (i mod 10)]"
  proof -
    fix i :: nat assume "10 \<le> i" "i < 100"
    then have "i div 10 < 10" by simp
    then have "str_nat (i div 10) = [digit_char (i div 10)]" by (rule a)
    then show "str_nat i = [digit_char (i div 10), digit_char (i mod 10)]"
      using \<open>10 \<le> i\<close> by (subst str_nat.simps) simp
  qed
  show "100 \<le> i \<Longrightarrow> i < 1000 \<Longrightarrow>
     str_nat i = [digit_char (i div 10 div 10), digit_char (i div 10 mod 10), digit_char (i mod 10)]"
  proof -
    assume "100 \<le> i" "i < 1000"
    then have "10 \<le> i div 10" "i div 10 < 100" by simp_all
    then have "str_nat (i div 10) = [digit_char (i div 10 div 10), digit_char (i div 10 mod 10)]"
      by (rule b)
    then show ?thesis using \<open>100 \<le> i\<close> by (subst str_nat.simps) simp
  qed
qed

lemma parse_octet_ok:
  assumes "s \<noteq> []" "list_all isdigit s" "length s \<le> 3" "hd s \<noteq> CHR ''0'' \<or> s = ''0''"
    "digits_val s \<le> 255"
  shows "parse_octet s = Inr (digits_val s)"
  unfolding parse_octet_def using assms by auto

lemma digits_facts:
  assumes "\<forall>d\<in>set ds. d < 10" "ds \<noteq> []" "length ds \<le> 3" "hd ds \<noteq> 0 \<or> ds = [0]"
  shows "map digit_char ds \<noteq> []" "list_all isdigit (map digit_char ds)"
    "length (map digit_char ds) \<le> 3"
    "hd (map digit_char ds) \<noteq> CHR ''0'' \<or> map digit_char ds = ''0''"
    "CHR ''.'' \<notin> set (map digit_char ds)" "CHR ''/'' \<notin> set (map digit_char ds)"
proof -
  show "map digit_char ds \<noteq> []" using assms(2) by simp
  show "list_all isdigit (map digit_char ds)"
    using assms(1) by (simp add: list_all_iff digit_char_facts(1))
  show "length (map digit_char ds) \<le> 3" using assms(3) by simp
  have z: "digit_char 0 = CHR ''0''" by (simp add: digit_char_def char_of_def bit_iff_odd)
  have h: "hd ds < 10" using assms(1,2) by (cases ds) simp_all
  show "hd (map digit_char ds) \<noteq> CHR ''0'' \<or> map digit_char ds = ''0''"
  proof (cases "hd ds = 0")
    case True
    then have "ds = [0]" using assms(4) by simp
    then show ?thesis by (simp add: z)
  next
    case False
    then have "digit_char (hd ds) \<noteq> CHR ''0''" using h by (simp add: digit_char_facts(4))
    then show ?thesis using assms(2) by (simp add: hd_map)
  qed
  show "CHR ''.'' \<notin> set (map digit_char ds)"
  proof
    assume "CHR ''.'' \<in> set (map digit_char ds)"
    then obtain d where "d \<in> set ds" "digit_char d = CHR ''.''" by auto
    then show False using assms(1) digit_char_facts(2) by blast
  qed
  show "CHR ''/'' \<notin> set (map digit_char ds)"
  proof
    assume "CHR ''/'' \<in> set (map digit_char ds)"
    then obtain d where "d \<in> set ds" "digit_char d = CHR ''/''" by auto
    then show False using assms(1) digit_char_facts(3) by blast
  qed
qed

lemma str_nat_map:
  assumes "i < 256"
  shows "\<exists>ds. str_nat i = map digit_char ds \<and> (\<forall>d\<in>set ds. d < 10) \<and> ds \<noteq> [] \<and> length ds \<le> 3
     \<and> (hd ds \<noteq> 0 \<or> ds = [0]) \<and> digits_val (map digit_char ds) = i"
proof -
  consider "i < 10" | "10 \<le> i" "i < 100" | "100 \<le> i" "i < 1000" using assms by linarith
  then show ?thesis
  proof cases
    case 1
    have s: "str_nat i = map digit_char [i]" using str_nat_cases(1)[OF 1] by simp
    have v: "digits_val (map digit_char [i]) = i" using 1 by (simp add: digits_val_def of_char_digit)
    have c: "(\<forall>d\<in>set [i]. d < 10) \<and> [i] \<noteq> [] \<and> length [i] \<le> 3 \<and> (hd [i] \<noteq> 0 \<or> [i] = [0])"
      using 1 by auto
    show ?thesis using s v c by blast
  next
    case 2
    let ?ds = "[i div 10, i mod 10]"
    have s: "str_nat i = map digit_char ?ds" using str_nat_cases(2)[OF 2] by simp
    have d: "i div 10 < 10" "i mod 10 < 10" "i div 10 \<noteq> 0" using 2 by simp_all
    have v: "digits_val (map digit_char ?ds) = i" using d(1,2) by (simp add: digits_val_def of_char_digit)
    have c: "(\<forall>d\<in>set ?ds. d < 10) \<and> ?ds \<noteq> [] \<and> length ?ds \<le> 3 \<and> (hd ?ds \<noteq> 0 \<or> ?ds = [0])"
      using d by simp
    show ?thesis using s v c by blast
  next
    case 3
    let ?j = "i div 10"
    let ?ds = "[?j div 10, ?j mod 10, i mod 10]"
    have s: "str_nat i = map digit_char ?ds" using str_nat_cases(3)[OF 3] by simp
    have j: "10 \<le> ?j" "?j < 100" using 3 by simp_all
    have d: "?j div 10 < 10" "?j mod 10 < 10" "i mod 10 < 10" "?j div 10 \<noteq> 0"
      using j by simp_all
    have "digits_val (map digit_char ?ds) = 10 * (10 * (?j div 10) + ?j mod 10) + i mod 10"
      using d(1,2,3) by (simp add: digits_val_def of_char_digit)
    also have "\<dots> = 10 * ?j + i mod 10" by simp
    also have "\<dots> = i" by simp
    finally have v: "digits_val (map digit_char ?ds) = i" .
    have c: "(\<forall>d\<in>set ?ds. d < 10) \<and> ?ds \<noteq> [] \<and> length ?ds \<le> 3 \<and> (hd ?ds \<noteq> 0 \<or> ?ds = [0])"
      using d by simp
    show ?thesis using s v c by blast
  qed
qed

lemma str_nat_digits:
  assumes "i < 256"
  shows "str_nat i \<noteq> []" "list_all isdigit (str_nat i)" "length (str_nat i) \<le> 3"
    "hd (str_nat i) \<noteq> CHR ''0'' \<or> str_nat i = ''0''" "digits_val (str_nat i) = i"
    "CHR ''.'' \<notin> set (str_nat i)" "CHR ''/'' \<notin> set (str_nat i)"
proof -
  obtain ds where ds: "str_nat i = map digit_char ds" "\<forall>d\<in>set ds. d < 10" "ds \<noteq> []"
      "length ds \<le> 3" "hd ds \<noteq> 0 \<or> ds = [0]" "digits_val (map digit_char ds) = i"
    using str_nat_map[OF assms] by blast
  note f = digits_facts[OF ds(2,3,4,5)]
  show "str_nat i \<noteq> []" unfolding ds(1) by (rule f(1))
  show "list_all isdigit (str_nat i)" unfolding ds(1) by (rule f(2))
  show "length (str_nat i) \<le> 3" unfolding ds(1) by (rule f(3))
  show "hd (str_nat i) \<noteq> CHR ''0'' \<or> str_nat i = ''0''" unfolding ds(1) by (rule f(4))
  show "digits_val (str_nat i) = i" unfolding ds(1) by (rule ds(6))
  show "CHR ''.'' \<notin> set (str_nat i)" unfolding ds(1) by (rule f(5))
  show "CHR ''/'' \<notin> set (str_nat i)" unfolding ds(1) by (rule f(6))
qed

lemma parse_octet_str_nat: "i < 256 \<Longrightarrow> parse_octet (str_nat i) = Inr i"
  using parse_octet_ok [of "str_nat i"] str_nat_digits [of i] by simp

lemma split_on_no_sep: "d \<notin> set s \<Longrightarrow> split_on d s = [s]"
  by (induction s) auto


lemma candidate_address: "i < 256 \<Longrightarrow> IPv4Address (''10.8.0.'' @ str_nat i) = Inr (ip4 10 8 0 i)"
proof -
  assume lt: "i < 256"
  have sp: "split_on (CHR ''.'') (''10.8.0.'' @ str_nat i) = [''10'', ''8'', ''0'', str_nat i]"
    using str_nat_digits(6)[OF lt] by (simp add: split_on_no_sep)
  have p: "parse_octet ''10'' = Inr 10" "parse_octet ''8'' = Inr 8" "parse_octet ''0'' = Inr 0"
    by (simp_all add: parse_octet_def isdigit_def digits_val_def)
  have ns: "CHR ''/'' \<notin> set (''10.8.0.'' @ str_nat i)" using str_nat_digits(7)[OF lt] by simp
  have po: "parse_octets [''10'', ''8'', ''0'', str_nat i] = Inr [10, 8, 0, i]"
    by (simp add: p parse_octet_str_nat[OF lt])
  show ?thesis
    unfolding IPv4Address_def Let_def sp po using ns by (simp add: ip4_def)
qed

lemma ip4_value: "ip4 a b c d = ((a * 256 + b) * 256 + c) * 256 + d"
  by (simp add: ip4_def from_bytes_def)

lemma ip4_last_inj: "(ip4 a b c i = ip4 a b c j) = (i = j)"
  by (simp add: ip4_value)

lemma add_used_set:
  "add_used ps U = U \<union> {a. \<exists>p\<in>set ps. IPv4Address (host_part (allowed_ips p)) = Inr a}"
proof (induction ps arbitrary: U)
  case Nil
  then show ?case by simp
next
  case (Cons p ps)
  show ?case
  proof (cases "IPv4Address (host_part (allowed_ips p))")
    case (Inl e)
    then show ?thesis using Cons.IH [of U] by auto
  next
    case (Inr a)
    then show ?thesis using Cons.IH [of "insert a U"] by auto
  qed
qed

lemma first_free_find:
  assumes "\<forall>i\<in>set js. i < 256"
  shows "first_free used js =
    (case find (\<lambda>i. ip4 10 8 0 i \<notin> used) js of
       None \<Rightarrow> Inl PoolExhausted | Some i \<Rightarrow> Inr (ip4 10 8 0 i))"
  using assms
proof (induction js)
  case Nil
  then show ?case by simp
next
  case (Cons a js)
  then have "a < 256" by simp
  then have c: "IPv4Address (''10.8.0.'' @ str_nat a) = Inr (ip4 10 8 0 a)"
    by (rule candidate_address)
  show ?case unfolding first_free.simps c using Cons by simp
qed

lemma find_upt_least:
  assumes "lo \<le> i" "i < hi" "P i" "\<forall>j. lo \<le> j \<and> j < i \<longrightarrow> \<not> P j"
  shows "find P [lo..<hi] = Some i"
  using assms
proof (induction "i - lo" arbitrary: lo)
  case 0
  then have "lo = i" by simp
  then show ?case using 0 by (simp add: upt_rec)
next
  case (Suc n)
  then have "lo < i" by simp
  then have "\<not> P lo" using Suc.prems by simp
  have "find P [Suc lo..<hi] = Some i"
    using Suc.hyps(1)[of "Suc lo"] Suc.hyps(2) Suc.prems \<open>lo < i\<close> by simp
  then show ?case using \<open>\<not> P lo\<close> \<open>lo < i\<close> Suc.prems(2) by (simp add: upt_rec[of lo hi])
qed

lemma find_upt_none: "(find P [lo..<hi] = None) = (\<forall>j. lo \<le> j \<and> j < hi \<longrightarrow> \<not> P j)"
  by (auto simp add: find_None_iff)



lemma parse_three_peers:
  "parse_text three_peers =
     [\<lparr> name = ''macbook-pro'', public_key = ''KEY1'', allowed_ips = ''10.8.0.5/32'',
        added_at = ''2026-01-27'', endpoint = None, preshared_key = None,
        latest_handshake = None, transfer_rx = None, transfer_tx = None \<rparr>,
      \<lparr> name = ''home-nas'', public_key = ''KEY2'', allowed_ips = ''10.8.0.6/32'',
        added_at = ''2026-01-27'', endpoint = Some ''nas.myhome.com:51820'', preshared_key = None,
        latest_handshake = None, transfer_rx = None, transfer_tx = None \<rparr>,
      \<lparr> name = ''phone-android'', public_key = ''KEY3'', allowed_ips = ''10.8.0.7/32'',
        added_at = ''2026-01-28'', endpoint = None, preshared_key = Some ''PSK'',
        latest_handshake = None, transfer_rx = None, transfer_tx = None \<rparr>]"
  by code_simp

section \<open>Address allocation\<close>

lemma get_used_ips_eq:
  "parse_peers st content = Inr ps \<Longrightarrow>
   get_used_ips st content =
     Inr (insert SERVER_IP {a. \<exists>p\<in>set ps. IPv4Address (host_part (allowed_ips p)) = Inr a})"
  by (simp add: get_used_ips_def add_used_set)

lemma get_next_available_ip_find:
  assumes "get_used_ips st content = Inr used"
  shows "get_next_available_ip st content =
    (case find (\<lambda>i. ip4 10 8 0 i \<notin> used) [2..<255] of
       None \<Rightarrow> Inl PoolExhausted | Some i \<Rightarrow> Inr (ip4 10 8 0 i))"
proof -
  have "\<forall>i\<in>set [2..<255]. i < 256" by (simp only: set_upt atLeastLessThan_iff) simp
  then have "first_free used [2..<255] =
    (case find (\<lambda>i. ip4 10 8 0 i \<notin> used) [2..<255] of
       None \<Rightarrow> Inl PoolExhausted | Some i \<Rightarrow> Inr (ip4 10 8 0 i))"
    by (rule first_free_find)
  then show ?thesis unfolding get_next_available_ip_def assms by (simp only: sum.case)
qed

text \<open>
  Claim C2. The used addresses are the root \<open>10.8.0.1\<close> and the host portions of the peers'
  \<open>allowed_ips\<close> that parse. \<open>get_next_available_ip\<close> returns \<open>10.8.0.i\<close> for the smallest
  \<open>i\<close> from 2 to 254 whose address is not used; what it returns is never used, never the
  root, the network or the broadcast address; it fails, and then with \<open>PoolExhausted\<close>, exactly
  when every offset from 2 to 254 is used.
\<close>

theorem next_available_ip_smallest_free:
  assumes "parse_peers st content = Inr ps"
  shows "let used = insert SERVER_IP
                      {a. \<exists>p\<in>set ps. IPv4Address (host_part (allowed_ips p)) = Inr a}
         in get_used_ips st content = Inr used
          \<and> (\<forall>i. 2 \<le> i \<and> i \<le> 254 \<and> ip4 10 8 0 i \<notin> used
                  \<and> (\<forall>j. 2 \<le> j \<and> j < i \<longrightarrow> ip4 10 8 0 j \<in> used)
                \<longrightarrow> get_next_available_ip st content = Inr (ip4 10 8 0 i))
          \<and> ((\<forall>i. 2 \<le> i \<and> i \<le> 254 \<longrightarrow> ip4 10 8 0 i \<in> used)
                \<longrightarrow> get_next_available_ip st content = Inl PoolExhausted)
          \<and> (\<forall>a. get_next_available_ip st content = Inr a
                \<longrightarrow> a \<notin> used \<and> a \<noteq> SERVER_IP \<and> a \<noteq> ip4 10 8 0 0 \<and> a \<noteq> ip4 10 8 0 255
                    \<and> (\<exists>i. 2 \<le> i \<and> i \<le> 254 \<and> a = ip4 10 8 0 i
                           \<and> (\<forall>j. 2 \<le> j \<and> j < i \<longrightarrow> ip4 10 8 0 j \<in> used)))
          \<and> (\<forall>e. get_next_available_ip st content = Inl e
                \<longrightarrow> e = PoolExhausted \<and> (\<forall>i. 2 \<le> i \<and> i \<le> 254 \<longrightarrow> ip4 10 8 0 i \<in> used))"
  supply upt_rec_numeral [simp del]
proof -
  define used where
    "used = insert SERVER_IP {a. \<exists>p\<in>set ps. IPv4Address (host_part (allowed_ips p)) = Inr a}"
  let ?P = "\<lambda>i. ip4 10 8 0 i \<notin> used"
  have u: "get_used_ips st content = Inr used"
    unfolding used_def using assms by (rule get_used_ips_eq)
  note nx = get_next_available_ip_find [OF u]
  have root: "SERVER_IP \<in> used" by (simp add: used_def)
  have least: "get_next_available_ip st content = Inr (ip4 10 8 0 i)"
    if "2 \<le> i" "i \<le> 254" "?P i" "\<forall>j. 2 \<le> j \<and> j < i \<longrightarrow> ip4 10 8 0 j \<in> used" for i
  proof -
    have "find ?P [2..<255] = Some i"
      using that by (intro find_upt_least) simp_all
    then show ?thesis by (simp add: nx)
  qed
  have full: "get_next_available_ip st content = Inl PoolExhausted"
    if "\<forall>i. 2 \<le> i \<and> i \<le> 254 \<longrightarrow> ip4 10 8 0 i \<in> used"
  proof -
    have "find ?P [2..<255] = None" using that by (simp add: find_upt_none)
    then show ?thesis by (simp add: nx)
  qed
  have some: "a \<notin> used \<and> a \<noteq> SERVER_IP \<and> a \<noteq> ip4 10 8 0 0 \<and> a \<noteq> ip4 10 8 0 255
      \<and> (\<exists>i. 2 \<le> i \<and> i \<le> 254 \<and> a = ip4 10 8 0 i \<and> (\<forall>j. 2 \<le> j \<and> j < i \<longrightarrow> ip4 10 8 0 j \<in> used))"
    if r: "get_next_available_ip st content = Inr a" for a
  proof -
    obtain i where f: "find ?P [2..<255] = Some i" and a: "a = ip4 10 8 0 i"
      using r by (auto simp add: nx split: option.splits)
    obtain k where k: "k < length [2..<255]" "?P ([2..<255] ! k)" "i = [2..<255] ! k"
        "\<forall>j<k. \<not> ?P ([2..<255] ! j)"
      using f unfolding find_Some_iff by blast
    have i: "i = 2 + k" "k < 253" using k(1,3) by simp_all
    have free: "?P i" using k(2,3) by simp
    have before: "ip4 10 8 0 j \<in> used" if "2 \<le> j" "j < i" for j
    proof -
      have "j - 2 < k" using that i by simp
      then have "\<not> ?P ([2..<255] ! (j - 2))" using k(4) by blast
      moreover have "[2..<255] ! (j - 2) = j" using that i by simp
      ultimately show ?thesis by simp
    qed
    have n1: "a \<noteq> SERVER_IP" using free root a by auto
    have n2: "a \<noteq> ip4 10 8 0 0" "a \<noteq> ip4 10 8 0 255"
      using i by (simp_all add: a ip4_last_inj)
    have b1: "2 \<le> i" "i \<le> 254" using i by simp_all
    have "\<forall>j. 2 \<le> j \<and> j < i \<longrightarrow> ip4 10 8 0 j \<in> used" using before by blast
    with b1 a have ex: "\<exists>i. 2 \<le> i \<and> i \<le> 254 \<and> a = ip4 10 8 0 i
        \<and> (\<forall>j. 2 \<le> j \<and> j < i \<longrightarrow> ip4 10 8 0 j \<in> used)" by blast
    have "a \<notin> used" using free a by simp
    then show ?thesis using n1 n2 ex by blast
  qed
  have none: "e = PoolExhausted \<and> (\<forall>i. 2 \<le> i \<and> i \<le> 254 \<longrightarrow> ip4 10 8 0 i \<in> used)"
    if r: "get_next_available_ip st content = Inl e" for e
  proof -
    have f: "find ?P [2..<255] = None" and e: "e = PoolExhausted"
      using r by (auto simp add: nx split: option.splits)
    show ?thesis using f e by (auto simp add: find_upt_none)
  qed
  show ?thesis
    unfolding Let_def used_def [symmetric] using u least full some none by blast
qed

lemma IPv4Address_examples:
  "IPv4Address ''10.8.0.5'' = Inr (ip4 10 8 0 5)"
  "IPv4Address ''10.8.0.6'' = Inr (ip4 10 8 0 6)"
  "IPv4Address ''10.8.0.7'' = Inr (ip4 10 8 0 7)"
  by (simp_all add: IPv4Address_def parse_octet_def isdigit_def digits_val_def from_bytes_def
      ip4_def)

theorem next_available_ip_smallest_free_witness:
  "parse_peers None (Some three_peers) = Inr (parse_text three_peers)
   \<and> get_next_available_ip None (Some three_peers) = Inr (ip4 10 8 0 2)"
proof -
  have p: "parse_peers None (Some three_peers) = Inr (parse_text three_peers)"
    by (simp add: parse_peers_def)
  have h: "host_part ''10.8.0.5/32'' = ''10.8.0.5''" "host_part ''10.8.0.6/32'' = ''10.8.0.6''"
    "host_part ''10.8.0.7/32'' = ''10.8.0.7''"
    by (simp_all add: host_part_def)
  have al: "map allowed_ips (parse_text three_peers) = [''10.8.0.5/32'', ''10.8.0.6/32'', ''10.8.0.7/32'']"
    unfolding parse_three_peers by simp
  have "{a. \<exists>p\<in>set (parse_text three_peers). IPv4Address (host_part (allowed_ips p)) = Inr a}
      = {a. \<exists>s\<in>set (map allowed_ips (parse_text three_peers)). IPv4Address (host_part s) = Inr a}"
    by auto
  also have "\<dots> = {ip4 10 8 0 5, ip4 10 8 0 6, ip4 10 8 0 7}"
    unfolding al by (auto simp add: h IPv4Address_examples)
  finally have used: "{a. \<exists>p\<in>set (parse_text three_peers). IPv4Address (host_part (allowed_ips p)) = Inr a}
      = {ip4 10 8 0 5, ip4 10 8 0 6, ip4 10 8 0 7}" .
  have free: "ip4 10 8 0 2 \<notin> insert SERVER_IP {ip4 10 8 0 5, ip4 10 8 0 6, ip4 10 8 0 7}"
    by (simp add: SERVER_IP_def ip4_last_inj)
  note t = next_available_ip_smallest_free [OF p, unfolded Let_def used]
  have "get_next_available_ip None (Some three_peers) = Inr (ip4 10 8 0 2)"
  proof (rule t [THEN conjunct2, THEN conjunct1, rule_format, of 2])
    from free show "2 \<le> (2::nat) \<and> (2::nat) \<le> 254
        \<and> ip4 10 8 0 2 \<notin> insert SERVER_IP {ip4 10 8 0 5, ip4 10 8 0 6, ip4 10 8 0 7}
        \<and> (\<forall>j. 2 \<le> j \<and> j < 2 \<longrightarrow>
              ip4 10 8 0 j \<in> insert SERVER_IP {ip4 10 8 0 5, ip4 10 8 0 6, ip4 10 8 0 7})"
      by simp
  qed
  with p show ?thesis by simp
qed

section \<open>A missing file\<close>

lemma parse_text_empty: "parse_text [] = []"
  by (simp add: parse_text_def finditer_def finditer_from.simps match_here_def PEER_PATTERN_def)

lemma add_peer_empty_store:
  "fst (add_peer (Some []) nm pk ip d ep psk) \<noteq> Inl FileNotFoundError"
  by (simp add: add_peer_def read_config_def check_name_conflict_def check_ip_conflict_def
      parse_peers_def parse_text_empty get_used_ips_def Let_def split: sum.splits bool.splits)

text \<open>
  Claim C6. When the file is absent, the list endpoint answers with an empty list, while
  \<open>add_peer\<close> and \<open>remove_peer\<close> fail with \<open>FileNotFoundError\<close> and leave the file absent. An
  empty file that exists is another case: decoding gives the empty list without an error,
  removal answers \<open>False\<close>, and \<open>add_peer\<close> does not fail with \<open>FileNotFoundError\<close>.
\<close>

theorem absent_store_read_empty_mutation_fatal:
  "list_peers None runtime = \<lparr> success = True, count = 0, peers = [] \<rparr>
   \<and> parse_peers None None = Inl FileNotFoundError
   \<and> add_peer None nm pk ip d ep psk = (Inl FileNotFoundError, None)
   \<and> remove_peer None nm = (Inl FileNotFoundError, None)
   \<and> parse_peers (Some []) None = Inr []
   \<and> list_peers (Some []) runtime = \<lparr> success = True, count = 0, peers = [] \<rparr>
   \<and> remove_peer (Some []) nm = (Inr False, Some [])
   \<and> fst (add_peer (Some []) nm pk ip d ep psk) \<noteq> Inl FileNotFoundError"
proof -
  have a: "parse_peers None None = Inl FileNotFoundError"
    by (simp add: parse_peers_def read_config_def)
  have b: "parse_peers (Some []) None = Inr []"
    by (simp add: parse_peers_def read_config_def parse_text_empty)
  have l1: "list_peers None runtime = \<lparr> success = True, count = 0, peers = [] \<rparr>"
    by (simp add: list_peers_def get_peers_with_status_def a)
  have l2: "list_peers (Some []) runtime = \<lparr> success = True, count = 0, peers = [] \<rparr>"
    by (simp add: list_peers_def get_peers_with_status_def b)
  have c: "add_peer None nm pk ip d ep psk = (Inl FileNotFoundError, None)"
    by (simp add: add_peer_def read_config_def)
  have d: "remove_peer None nm = (Inl FileNotFoundError, None)"
    by (simp add: remove_peer_def read_config_def)
  have e: "remove_peer (Some []) nm = (Inr False, Some [])"
    by (simp add: remove_peer_def read_config_def subn_empty_def subn_from.simps match_here_def
        remove_pattern_def)
  show ?thesis using a b l1 l2 c d e add_peer_empty_store by simp
qed

section \<open>Name resolution\<close>

lemma lower_append: "lower (a @ b) = lower a @ lower b"
  by (simp add: lower_def)

lemma lower_char_dot: "(lower_char c = CHR ''.'') = (c = CHR ''.'')"
proof (cases "(65 \<le> (of_char c :: nat) \<and> (of_char c :: nat) \<le> 90)
    \<or> (192 \<le> (of_char c :: nat) \<and> (of_char c :: nat) \<le> 222 \<and> (of_char c :: nat) \<noteq> 215)")
  case True
  then have l: "lower_char c = char_of ((of_char c :: nat) + 32)"
    unfolding lower_char_def Let_def by (rule if_P)
  have lt: "(of_char c :: nat) + 32 < 256" "65 \<le> (of_char c :: nat)"
    using True by linarith+
  have "(of_char (char_of ((of_char c :: nat) + 32)) :: nat) = (of_char c + 32) mod 256"
    by (rule of_char_of)
  also have "\<dots> = of_char c + 32" using lt(1) by (rule mod_less)
  finally have "(of_char (lower_char c) :: nat) = of_char c + 32" using l by simp
  then have "(of_char (lower_char c) :: nat) \<noteq> of_char (CHR ''.'')" using lt(2) by simp
  then have n1: "lower_char c \<noteq> CHR ''.''" by metis
  have "(of_char c :: nat) \<noteq> of_char (CHR ''.'')" using lt(2) by simp
  then have n2: "c \<noteq> CHR ''.''" by metis
  show ?thesis using n1 n2 by simp
next
  case False
  then have "lower_char c = c" unfolding lower_char_def Let_def by (rule if_not_P)
  then show ?thesis by simp
qed

lemma rstrip_chars_dots:
  assumes "x \<noteq> []" "last x \<noteq> CHR ''.''"
  shows "rstrip_chars ''.'' (x @ replicate k (CHR ''.'')) = x"
proof -
  have "dropWhile (\<lambda>c. c \<in> set ''.'') (replicate k (CHR ''.'') @ rev x) = rev x"
  proof (induction k)
    case 0
    obtain y ys where r: "rev x = y # ys" using assms(1) by (cases "rev x") auto
    then have "y = last x" using assms(1) by (metis list.sel(1) hd_rev)
    then have "y \<noteq> CHR ''.''" using assms(2) by simp
    then have "dropWhile (\<lambda>c. c \<in> set ''.'') (rev x) = rev x" unfolding r by simp
    then show ?case by simp
  next
    case (Suc k)
    then show ?case by simp
  qed
  then show ?thesis by (simp add: rstrip_chars_def)
qed

lemma endswith_append: "endswith (a @ b) b"
  by (simp add: endswith_def)

lemma slice_to_neg_append: "b \<noteq> [] \<Longrightarrow> slice_to_neg (a @ b) (length b) = a"
  by (simp add: slice_to_neg_def)

lemma mapping_aliases:
  "get_name_to_ip_mapping st ''server'' = Some ''10.8.0.1''"
  "get_name_to_ip_mapping st ''gateway'' = Some ''10.8.0.1''"
  by (simp_all add: get_name_to_ip_mapping_def Let_def)

lemma resolve_query_in_zone:
  assumes "sfx \<noteq> []" "last sfx \<noteq> CHR ''.''"
  shows "resolve_query (new_dns_server a p sfx) st (n @ sfx @ replicate k (CHR ''.'')) QTYPE_A
     = get_name_to_ip_mapping st (lower n)"
proof -
  let ?s = "lower sfx"
  have s: "?s \<noteq> []" using assms(1) by (simp add: lower_def)
  have "last ?s = lower_char (last sfx)" using assms(1) by (simp add: lower_def last_map)
  then have ls: "last ?s \<noteq> CHR ''.''" using assms(2) by (simp add: lower_char_dot)
  have x: "lower n @ ?s \<noteq> []" "last (lower n @ ?s) \<noteq> CHR ''.''" using s ls by simp_all
  have "lower_char (CHR ''.'') = CHR ''.''" by (simp add: lower_char_dot)
  then have "replicate k (CHR ''.'') = lower (replicate k (CHR ''.''))"
    by (simp add: lower_def)
  then have "lower (n @ sfx @ replicate k (CHR ''.'')) = (lower n @ ?s) @ replicate k (CHR ''.'')"
    by (simp add: lower_append)
  then have q: "rstrip_chars ''.'' (lower (n @ sfx @ replicate k (CHR ''.''))) = lower n @ ?s"
    using rstrip_chars_dots [OF x] by simp
  show ?thesis
    unfolding resolve_query_def q Let_def
    by (simp add: new_dns_server_def endswith_append slice_to_neg_append [OF s])
qed

text \<open>
  Claim C10. The entries \<open>server\<close> and \<open>gateway\<close> are written into the mapping after all peer
  entries, so they hold the root address whatever the peers are; a query for a name that
  lowercases to one of them, under a non-empty suffix, is answered with the root address.
\<close>

theorem aliases_shadow_peers:
  "get_name_to_ip_mapping st ''server'' = Some ''10.8.0.1''
   \<and> get_name_to_ip_mapping st ''gateway'' = Some ''10.8.0.1''
   \<and> ((lower n = ''server'' \<or> lower n = ''gateway'') \<and> sfx \<noteq> [] \<and> last sfx \<noteq> CHR ''.''
        \<longrightarrow> resolve_query (new_dns_server a p sfx) st (n @ sfx @ replicate k (CHR ''.'')) QTYPE_A
            = Some ''10.8.0.1'')"
  using mapping_aliases [of st] resolve_query_in_zone [of sfx a p st n k] by auto



lemma parse_server_peer:
  "map (\<lambda>p. (name p, allowed_ips p)) (parse_text server_peer) = [(''SeRvEr'', ''10.8.0.9/32'')]"
  by code_simp

theorem aliases_shadow_peers_witness:
  "map (\<lambda>p. (name p, allowed_ips p)) (parse_text server_peer) = [(''SeRvEr'', ''10.8.0.9/32'')]
   \<and> resolve_query (new_dns_server ''10.8.0.1'' 53 ''.vpn.example.com'') (Some server_peer)
        ''SeRvEr.vpn.example.com.'' QTYPE_A = Some ''10.8.0.1''"
proof -
  have l: "lower ''SeRvEr'' = ''server''"
    by (simp add: lower_def lower_char_def char_of_def bit_iff_odd)
  have "resolve_query (new_dns_server ''10.8.0.1'' 53 ''.vpn.example.com'') (Some server_peer)
        (''SeRvEr'' @ ''.vpn.example.com'' @ replicate 1 (CHR ''.'')) QTYPE_A = Some ''10.8.0.1''"
    using aliases_shadow_peers [where n = "''SeRvEr''" and sfx = "''.vpn.example.com''"
        and st = "Some server_peer" and a = "''10.8.0.1''" and p = 53 and k = 1] l
    by simp
  then show ?thesis using parse_server_peer by simp
qed

lemma resolve_query_cases:
  "t \<noteq> QTYPE_A \<Longrightarrow> resolve_query srv st q t = None"
  "\<not> endswith (rstrip_chars ''.'' (lower q)) (domain_suffix srv) \<Longrightarrow> resolve_query srv st q t = None"
  "t = QTYPE_A \<Longrightarrow> endswith (rstrip_chars ''.'' (lower q)) (domain_suffix srv)
     \<Longrightarrow> domain_suffix srv \<noteq> []
     \<Longrightarrow> resolve_query srv st q t =
         get_name_to_ip_mapping st
           (take (length (rstrip_chars ''.'' (lower q)) - length (domain_suffix srv))
              (rstrip_chars ''.'' (lower q)))"
  by (simp_all add: resolve_query_def Let_def slice_to_neg_def)

lemma mapping_three_peers:
  "get_name_to_ip_mapping (Some three_peers) ''home-nas'' = Some ''10.8.0.6''"
  "get_name_to_ip_mapping (Some three_peers) ''unknown'' = None"
  by (simp_all add: get_name_to_ip_mapping_def Let_def parse_peers_def read_config_id
      no_cr_examples parse_three_peers lower_def lower_char_def char_of_def bit_iff_odd host_part_def)

lemma resolve_query_examples:
  "resolve_query (new_dns_server ''10.8.0.1'' 53 ''.vpn.example.com'') (Some three_peers)
     ''home-nas.vpn.example.com'' QTYPE_A = Some ''10.8.0.6''"
  "resolve_query (new_dns_server ''10.8.0.1'' 53 ''.vpn.example.com'') (Some three_peers)
     ''unknown.vpn.example.com'' QTYPE_A = None"
  "resolve_query (new_dns_server ''10.8.0.1'' 53 ''.vpn.example.com'') (Some three_peers)
     ''home-nas.other.com'' QTYPE_A = None"
  "resolve_query (new_dns_server ''10.8.0.1'' 53 ''.vpn.example.com'') (Some three_peers)
     ''server.vpn.example.com'' QTYPE_A = Some ''10.8.0.1''"
proof -
  have z: "''.vpn.example.com'' \<noteq> []" "last ''.vpn.example.com'' \<noteq> CHR ''.''" by simp_all
  note r = resolve_query_in_zone [OF z, where k = 0, simplified]
  have l: "lower ''home-nas'' = ''home-nas''" "lower ''unknown'' = ''unknown''"
    "lower ''server'' = ''server''"
    by (simp_all add: lower_def lower_char_def)
  show "resolve_query (new_dns_server ''10.8.0.1'' 53 ''.vpn.example.com'') (Some three_peers)
     ''home-nas.vpn.example.com'' QTYPE_A = Some ''10.8.0.6''"
    using r [of "''10.8.0.1''" 53 "Some three_peers" "''home-nas''"] l mapping_three_peers by simp
  show "resolve_query (new_dns_server ''10.8.0.1'' 53 ''.vpn.example.com'') (Some three_peers)
     ''unknown.vpn.example.com'' QTYPE_A = None"
    using r [of "''10.8.0.1''" 53 "Some three_peers" "''unknown''"] l mapping_three_peers by simp
  show "resolve_query (new_dns_server ''10.8.0.1'' 53 ''.vpn.example.com'') (Some three_peers)
     ''server.vpn.example.com'' QTYPE_A = Some ''10.8.0.1''"
    using r [of "''10.8.0.1''" 53 "Some three_peers" "''server''"] l mapping_aliases by simp
  have "lower ''home-nas.other.com'' = ''home-nas.other.com''"
    by (simp add: lower_def lower_char_def)
  then show "resolve_query (new_dns_server ''10.8.0.1'' 53 ''.vpn.example.com'') (Some three_peers)
     ''home-nas.other.com'' QTYPE_A = None"
    by (simp add: resolve_query_def Let_def new_dns_server_def rstrip_chars_def endswith_def
        lower_def lower_char_def)
qed

text \<open>
  Claim C7, at an empty configured suffix. Every name ends with the empty suffix, and taking
  the suffix off \<open>server\<close> leaves \<open>server\<close>, which the mapping sends to the root address; but
  the slice \<open>qname[:-0]\<close> is the empty string, so \<open>resolve_query\<close> looks up the empty name and
  answers nothing.
\<close>

theorem resolve_query_empty_suffix:
  "domain_suffix (new_dns_server ''10.8.0.1'' 53 []) = []
   \<and> endswith (rstrip_chars ''.'' (lower ''server''))
        (domain_suffix (new_dns_server ''10.8.0.1'' 53 []))
   \<and> get_name_to_ip_mapping None ''server'' = Some ''10.8.0.1''
   \<and> resolve_query (new_dns_server ''10.8.0.1'' 53 []) None ''server'' QTYPE_A = None"
  by (simp add: resolve_query_def Let_def new_dns_server_def rstrip_chars_def endswith_def
      lower_def lower_char_def slice_to_neg_def get_name_to_ip_mapping_def parse_peers_def
      read_config_def)

section \<open>Conflicts\<close>

lemma parse_server_peer_record:
  "parse_text server_peer =
     [\<lparr> name = ''SeRvEr'', public_key = ''KEY1'', allowed_ips = ''10.8.0.9/32'',
        added_at = ''2026-01-27'', endpoint = None, preshared_key = None,
        latest_handshake = None, transfer_rx = None, transfer_tx = None \<rparr>]"
  by code_simp

lemma add_peer_name_conflict:
  assumes "list_ex (\<lambda>p. name p = nm) (parse_text (universal_newlines content))"
  shows "add_peer (Some content) nm pk ip d ep psk = (Inl (NameConflict nm), Some content)"
  using assms
  by (simp add: add_peer_def read_config_def check_name_conflict_def parse_peers_def)

lemma add_peer_address_conflict:
  assumes "\<not> list_ex (\<lambda>p. name p = nm) (parse_text (universal_newlines content))"
    and "IPv4Address (host_part ip) = Inr a"
    and "\<exists>p\<in>set (parse_text (universal_newlines content)).
           IPv4Address (host_part (allowed_ips p)) = Inr a"
  shows "add_peer (Some content) nm pk ip d ep psk = (Inl (AddressConflict ip), Some content)"
proof -
  let ?c = "universal_newlines content"
  have u: "get_used_ips (Some content) (Some ?c) =
      Inr (insert SERVER_IP
            {a. \<exists>p\<in>set (parse_text ?c). IPv4Address (host_part (allowed_ips p)) = Inr a})"
    by (rule get_used_ips_eq) (simp add: parse_peers_def)
  have c: "check_ip_conflict (Some content) ip (Some ?c) = Inr True"
    using assms(2,3) by (simp add: check_ip_conflict_def u)
  have n: "check_name_conflict (Some content) nm (Some ?c) = Inr False"
    using assms(1) by (simp add: check_name_conflict_def parse_peers_def)
  show ?thesis by (simp add: add_peer_def read_config_def n c)
qed

text \<open>
  Claim C3, as the code has it. The records are those of the file as \<open>add_peer\<close> reads it. A
  record with the requested name makes \<open>add_peer\<close> fail with \<open>NameConflict\<close>. When no record
  has that name and the host portion of the requested address parses to an address that the
  host portion of some record's \<open>allowed_ips\<close> parses to as well, \<open>add_peer\<close> fails with
  \<open>AddressConflict\<close>. In both cases the file is the one before the call.
\<close>

theorem add_peer_conflicts_leave_store:
  "(list_ex (\<lambda>p. name p = nm) (parse_text (universal_newlines content))
      \<longrightarrow> add_peer (Some content) nm pk ip d ep psk = (Inl (NameConflict nm), Some content))
   \<and> (\<not> list_ex (\<lambda>p. name p = nm) (parse_text (universal_newlines content))
       \<and> IPv4Address (host_part ip) = Inr a
       \<and> (\<exists>p\<in>set (parse_text (universal_newlines content)).
             IPv4Address (host_part (allowed_ips p)) = Inr a)
      \<longrightarrow> add_peer (Some content) nm pk ip d ep psk = (Inl (AddressConflict ip), Some content))"
  using add_peer_name_conflict add_peer_address_conflict by blast

lemma IPv4Address_9: "IPv4Address ''10.8.0.9'' = Inr (ip4 10 8 0 9)"
  by (simp add: IPv4Address_def parse_octet_def isdigit_def digits_val_def from_bytes_def ip4_def)

theorem add_peer_conflicts_leave_store_witness:
  "add_peer (Some server_peer) ''SeRvEr'' ''KEY2'' ''10.8.0.20'' ''2026-02-01'' None None
     = (Inl (NameConflict ''SeRvEr''), Some server_peer)
   \<and> add_peer (Some server_peer) ''laptop'' ''KEY2'' ''10.8.0.9'' ''2026-02-01'' None None
     = (Inl (AddressConflict ''10.8.0.9''), Some server_peer)"
proof -
  have h: "host_part ''10.8.0.9/32'' = ''10.8.0.9''" "host_part ''10.8.0.9'' = ''10.8.0.9''"
    by (simp_all add: host_part_def)
  have 1: "add_peer (Some server_peer) ''SeRvEr'' ''KEY2'' ''10.8.0.20'' ''2026-02-01'' None None
     = (Inl (NameConflict ''SeRvEr''), Some server_peer)"
    using add_peer_conflicts_leave_store [where content = server_peer and nm = "''SeRvEr''"
        and pk = "''KEY2''" and ip = "''10.8.0.20''" and d = "''2026-02-01''" and ep = None
        and psk = None]
    by (simp add: parse_server_peer_record universal_newlines_id no_cr_examples)
  have 2: "add_peer (Some server_peer) ''laptop'' ''KEY2'' ''10.8.0.9'' ''2026-02-01'' None None
     = (Inl (AddressConflict ''10.8.0.9''), Some server_peer)"
    using add_peer_conflicts_leave_store [where content = server_peer and nm = "''laptop''"
        and pk = "''KEY2''" and ip = "''10.8.0.9''" and d = "''2026-02-01''" and ep = None
        and psk = None and a = "ip4 10 8 0 9"]
    by (simp add: parse_server_peer_record h IPv4Address_9 universal_newlines_id no_cr_examples)
  show ?thesis using 1 2 by simp
qed

text \<open>
  The claim as stated asks for \<open>AddressConflict\<close> whenever the address is taken. With the
  name taken too, the name is checked first and the failure is \<open>NameConflict\<close>.
\<close>

theorem add_peer_both_conflicts_counterexample:
  "list_ex (\<lambda>p. name p = ''SeRvEr'') (parse_text server_peer)
   \<and> list_ex (\<lambda>p. IPv4Address (host_part (allowed_ips p)) = IPv4Address (host_part ''10.8.0.9''))
        (parse_text server_peer)
   \<and> IPv4Address (host_part ''10.8.0.9'') = Inr (ip4 10 8 0 9)
   \<and> add_peer (Some server_peer) ''SeRvEr'' ''KEY2'' ''10.8.0.9'' ''2026-02-01'' None None
       = (Inl (NameConflict ''SeRvEr''), Some server_peer)
   \<and> fst (add_peer (Some server_peer) ''SeRvEr'' ''KEY2'' ''10.8.0.9'' ''2026-02-01'' None None)
       \<noteq> Inl (AddressConflict ''10.8.0.9'')"
proof -
  have h: "host_part ''10.8.0.9/32'' = ''10.8.0.9''" "host_part ''10.8.0.9'' = ''10.8.0.9''"
    by (simp_all add: host_part_def)
  have n: "list_ex (\<lambda>p. name p = ''SeRvEr'') (parse_text server_peer)"
    by (simp add: parse_server_peer_record)
  have a: "add_peer (Some server_peer) ''SeRvEr'' ''KEY2'' ''10.8.0.9'' ''2026-02-01'' None None
       = (Inl (NameConflict ''SeRvEr''), Some server_peer)"
    using n by (intro add_peer_name_conflict) (simp add: universal_newlines_id no_cr_examples)
  show ?thesis using n a by (simp add: parse_server_peer_record h IPv4Address_9)
qed

section \<open>The matcher on literals, runs and lazy stretches\<close>

lemma m_Lit_append: "\<exists>q'. m (Lit w) k (q, w @ t, c) = k (q', t, c)"
  by (cases "w = []") auto

lemma m_Lit_fail: "\<not> prefix w t \<Longrightarrow> m (Lit w) k (q, t, c) = None"
  by simp

lemma accepts_Lit: "accepts k t s cs \<Longrightarrow> accepts (m (Lit w) k) (w @ t) s cs"
  unfolding accepts_def by simp

lemma nl_only_Lit: "nl_only (m (Lit (NL # w)) k)"
  unfolding nl_only_def by (auto simp add: prefix_def)

lemma greedy_Some: "\<exists>r. greedy cl Some st = Some r"
  by (induction cl "Some :: mstate \<Rightarrow> mstate option" st rule: greedy.induct) auto

lemma greedy_run:
  assumes "\<And>q t c. k (q, e # t, c) = None" and "\<not> prefix [e] s"
  shows "\<exists>q'. greedy (Ch e) k (q, replicate j e @ s, c) = k (q', s, c)"
proof (induction j arbitrary: q)
  case 0
  show ?case using assms(2) by (cases s) auto
next
  case (Suc j)
  obtain q' where "greedy (Ch e) k (Some e, replicate j e @ s, c) = k (q', s, c)"
    using Suc [of "Some e"] by blast
  then have "greedy (Ch e) k (q, replicate (Suc j) e @ s, c) = k (q', s, c)"
    using assms(1) by (cases "k (q', s, c)") simp_all
  then show ?case by blast
qed

lemma plus_run:
  assumes "\<And>q t c. k (q, e # t, c) = None" and "\<not> prefix [e] s"
  shows "\<exists>q'. m (Plus (Ch e)) k (q, replicate (Suc j) e @ s, c) = k (q', s, c)"
proof -
  have "\<exists>q'. greedy (Ch e) k (Some e, replicate j e @ s, c) = k (q', s, c)"
    using assms by (rule greedy_run)
  then show ?thesis by simp
qed

lemma accepts_banner_run:
  assumes "accepts (m (Lit (NL # w)) k) (NL # t) s cs"
  shows "accepts (m (Plus (Ch (CHR ''=''))) (m (Lit (NL # w)) k))
           (replicate (Suc j) (CHR ''='') @ NL # t) s cs"
proof -
  let ?k = "m (Lit (NL # w)) k"
  have f: "\<And>q t c. ?k (q, CHR ''='' # t, c) = None" by simp
  have n: "\<not> prefix [CHR ''=''] (NL # t)" by simp
  show ?thesis
    unfolding accepts_def
  proof (intro allI)
    fix q c
    obtain q' where "m (Plus (Ch (CHR ''=''))) ?k (q, replicate (Suc j) (CHR ''='') @ NL # t, c)
        = ?k (q', NL # t, c)"
      using plus_run [where k = ?k and e = "CHR ''=''" and s = "NL # t" and q = q and j = j and c = c]
        f n by blast
    then show "\<exists>p'. m (Plus (Ch (CHR ''=''))) ?k (q, replicate (Suc j) (CHR ''='') @ NL # t, c)
        = Some (p', s, cs @ c)"
      using assms unfolding accepts_def by metis
  qed
qed

lemma lazy_skip:
  assumes "\<And>u1 u2 q. u = u1 @ u2 \<Longrightarrow> u2 \<noteq> [] \<Longrightarrow> k (q, u2 @ s, c) = None"
  shows "\<exists>q'. lazy AnyChar k (q, u @ s, c) = lazy AnyChar k (q', s, c)"
  using assms
proof (induction u arbitrary: q)
  case Nil
  show ?case by auto
next
  case (Cons x u)
  have "k (q, (x # u) @ s, c) = None" using Cons.prems [of "[]" "x # u"] by simp
  then have a: "lazy AnyChar k (q, (x # u) @ s, c) = lazy AnyChar k (Some x, u @ s, c)" by simp
  have "\<exists>q'. lazy AnyChar k (Some x, u @ s, c) = lazy AnyChar k (q', s, c)"
  proof (rule Cons.IH)
    fix u1 u2 q assume "u = u1 @ u2" "u2 \<noteq> []"
    then show "k (q, u2 @ s, c) = None" using Cons.prems [of "x # u1" u2] by simp
  qed
  then show ?case using a by simp
qed

lemma lazy_now: "k (q, s, c) = Some r \<Longrightarrow> lazy AnyChar k (q, s, c) = Some r"
  by (cases s) auto

lemma lazy_stop:
  assumes "\<And>u1 u2 q. u = u1 @ u2 \<Longrightarrow> u2 \<noteq> [] \<Longrightarrow> k (q, u2 @ s, c) = None"
    and "\<And>q. \<exists>p'. k (q, s, c) = Some (p', s', cs)"
  shows "\<exists>p'. lazy AnyChar k (q, u @ s, c) = Some (p', s', cs)"
proof -
  obtain q' where a: "lazy AnyChar k (q, u @ s, c) = lazy AnyChar k (q', s, c)"
    using lazy_skip [of u k s c q] assms(1) by blast
  obtain p' where "k (q', s, c) = Some (p', s', cs)" using assms(2) by blast
  then have "lazy AnyChar k (q', s, c) = Some (p', s', cs)" by (rule lazy_now)
  then show ?thesis using a by auto
qed

lemma lazy_plus_stop:
  assumes "u \<noteq> []"
    and "\<And>u1 u2 q. u = u1 @ u2 \<Longrightarrow> u1 \<noteq> [] \<Longrightarrow> u2 \<noteq> [] \<Longrightarrow> k (q, u2 @ s, c) = None"
    and "\<And>q. \<exists>p'. k (q, s, c) = Some (p', s', cs)"
  shows "\<exists>p'. m (LazyPlus AnyChar) k (q, u @ s, c) = Some (p', s', cs)"
proof -
  obtain x v where u: "u = x # v" using assms(1) by (cases u) auto
  have "\<exists>p'. lazy AnyChar k (Some x, v @ s, c) = Some (p', s', cs)"
  proof (rule lazy_stop)
    fix u1 u2 q assume "v = u1 @ u2" "u2 \<noteq> []"
    then show "k (q, u2 @ s, c) = None" using assms(2) [of "x # u1" u2] u by simp
  next
    fix q show "\<exists>p'. k (q, s, c) = Some (p', s', cs)" by (rule assms(3))
  qed
  then show ?thesis by (simp add: u)
qed

lemma line_inside:
  assumes "line u" "u = u1 @ u2" "u2 \<noteq> []"
  shows "\<not> prefix [NL] (u2 @ s)"
proof -
  obtain x v where "u2 = x # v" using assms(3) by (cases u2) auto
  moreover have "x \<noteq> NL" using assms(1,2) calculation by (auto simp add: line_def)
  ultimately show ?thesis by simp
qed

lemma accepts_lazy_line:
  assumes "line u" "nl_only k" "accepts k s s' cs"
  shows "accepts (m (LazyPlus AnyChar) k) (u @ s) s' cs"
  unfolding accepts_def
proof (intro allI)
  fix q c
  show "\<exists>p'. m (LazyPlus AnyChar) k (q, u @ s, c) = Some (p', s', cs @ c)"
  proof (rule lazy_plus_stop)
    show "u \<noteq> []" using assms(1) by (simp add: line_def)
  next
    fix u1 u2 q assume "u = u1 @ u2" "u2 \<noteq> []"
    then have "\<not> prefix [NL] (u2 @ s)" using assms(1) by (rule line_inside [rotated])
    then show "k (q, u2 @ s, c) = None" using assms(2) unfolding nl_only_def by blast
  next
    fix q show "\<exists>p'. k (q, s, c) = Some (p', s', cs @ c)"
      using assms(3) unfolding accepts_def by blast
  qed
qed

lemma accepts_group_line:
  assumes "line u" "nl_only k" "accepts k s s' cs"
  shows "accepts (m (Group g (LazyPlus AnyChar)) k) (u @ s) s' (cs @ [(g, u)])"
  unfolding accepts_def
proof (intro allI)
  fix q c
  let ?k = "\<lambda>(p', t', c'). k (p', t', (g, take (length (u @ s) - length t') (u @ s)) # c')"
  have "\<exists>p'. m (LazyPlus AnyChar) ?k (q, u @ s, c) = Some (p', s', cs @ (g, u) # c)"
  proof (rule lazy_plus_stop)
    show "u \<noteq> []" using assms(1) by (simp add: line_def)
  next
    fix u1 u2 q assume "u = u1 @ u2" "u2 \<noteq> []"
    then have "\<not> prefix [NL] (u2 @ s)" using assms(1) by (rule line_inside [rotated])
    then show "?k (q, u2 @ s, c) = None" using assms(2) unfolding nl_only_def by simp
  next
    fix q show "\<exists>p'. ?k (q, s, c) = Some (p', s', cs @ (g, u) # c)"
      using assms(3) unfolding accepts_def by simp
  qed
  then show "\<exists>p'. m (Group g (LazyPlus AnyChar)) k (q, u @ s, c) = Some (p', s', (cs @ [(g, u)]) @ c)"
    by simp
qed


lemma m_Seq: "m (Seq a b) k = m a (m b k)"
  by (rule ext) simp

lemma plus_fail: "\<not> prefix [e] t \<Longrightarrow> m (Plus (Ch e)) k (q, t, c) = None"
  by (cases t) auto

lemma m_lookahead:
  "m lookahead k (q, s, c) = (if s = [] \<or> prefix (NL # ''# ='') s then k (q, s, c) else None)"
proof -
  let ?a = "Seq (Lit (NL # ''# '')) (Plus (Ch (CHR ''='')))"
  consider "s = []" | t where "s = NL # ''# ='' @ t" | "s \<noteq> []" "\<not> prefix (NL # ''# ='') s"
    by (auto simp add: prefix_def)
  then show ?thesis
  proof cases
    case 1
    then show ?thesis by (simp add: lookahead_def)
  next
    case 2
    obtain r where "greedy (Ch (CHR ''='')) Some (Some (CHR ''=''), t, c) = Some r"
      using greedy_Some by blast
    then show ?thesis using 2 by (simp add: lookahead_def)
  next
    case 3
    have "m ?a Some (q, s, c) = None"
    proof (cases "prefix (NL # ''# '') s")
      case True
      then obtain t where t: "s = (NL # ''# '') @ t" by (auto simp add: prefix_def)
      then have "\<not> prefix [CHR ''=''] t" using 3(2) by (auto simp add: prefix_def)
      then have "m (Plus (Ch (CHR ''=''))) Some (Some (CHR '' ''), t, c) = None" by (rule plus_fail)
      then show ?thesis unfolding t by simp
    next
      case False
      then show ?thesis by simp
    qed
    then show ?thesis using 3 by (simp add: lookahead_def)
  qed
qed

lemma accepts_body:
  assumes "quiet (NL # ''# ='') body s" "s = [] \<or> prefix (NL # ''# ='') s"
  shows "accepts (m (LazyStar AnyChar) (m lookahead Some)) (body @ s) s []"
  unfolding accepts_def
proof (intro allI)
  fix q c
  have "\<exists>p'. lazy AnyChar (m lookahead Some) (q, body @ s, c) = Some (p', s, c)"
  proof (rule lazy_stop)
    fix u1 u2 q assume u: "body = u1 @ u2" "u2 \<noteq> []"
    then have "\<not> prefix (NL # ''# ='') (u2 @ s)" using assms(1) unfolding quiet_def by blast
    then show "m lookahead Some (q, u2 @ s, c) = None" using u(2) by (simp add: m_lookahead)
  next
    fix q show "\<exists>p'. m lookahead Some (q, s, c) = Some (p', s, c)"
      using assms(2) by (simp add: m_lookahead)
  qed
  then show "\<exists>p'. m (LazyStar AnyChar) (m lookahead Some) (q, body @ s, c) = Some (p', s, [] @ c)"
    by simp
qed

lemma accepts_group_body:
  assumes "quiet (NL # ''# ='') body s" "s = [] \<or> prefix (NL # ''# ='') s"
  shows "accepts (m (Group g (LazyStar AnyChar)) (m lookahead Some)) (body @ s) s [(g, body)]"
  unfolding accepts_def
proof (intro allI)
  fix q c
  let ?k = "\<lambda>(p', t', c'). m lookahead Some
      (p', t', (g, take (length (body @ s) - length t') (body @ s)) # c')"
  have "\<exists>p'. lazy AnyChar ?k (q, body @ s, c) = Some (p', s, (g, body) # c)"
  proof (rule lazy_stop)
    fix u1 u2 q assume u: "body = u1 @ u2" "u2 \<noteq> []"
    then have "\<not> prefix (NL # ''# ='') (u2 @ s)" using assms(1) unfolding quiet_def by blast
    then show "?k (q, u2 @ s, c) = None" using u(2) by (simp add: m_lookahead)
  next
    fix q show "\<exists>p'. ?k (q, s, c) = Some (p', s, (g, body) # c)"
      using assms(2) by (simp add: m_lookahead)
  qed
  then show "\<exists>p'. m (Group g (LazyStar AnyChar)) (m lookahead Some) (q, body @ s, c)
      = Some (p', s, [(g, body)] @ c)"
    by simp
qed

section \<open>Stretches without a banner\<close>

lemma quiet_nl:
  assumes "\<not> sublist w x" "s = [] \<or> prefix [NL] s" "NL \<notin> set (tl w)"
  shows "quiet w x s"
  unfolding quiet_def
proof (intro allI impI notI)
  fix u1 u2 assume a: "x = u1 @ u2 \<and> u2 \<noteq> []" and p: "prefix w (u2 @ s)"
  show False
  proof (cases "length w \<le> length u2")
    case True
    have "prefix u2 (u2 @ s)" by simp
    with p have "prefix w u2" using True by (rule prefix_length_prefix)
    then obtain r where "u2 = w @ r" by (auto simp add: prefix_def)
    then have "x = u1 @ w @ r" using a by simp
    then have "sublist w x" by (auto simp add: sublist_def)
    then show False using assms(1) by simp
  next
    case False
    have "prefix u2 (u2 @ s)" by simp
    then have "prefix u2 w" using p
    proof (rule prefix_length_prefix)
      show "length u2 \<le> length w" using False by simp
    qed
    then obtain w' where w: "w = u2 @ w'" by (auto simp add: prefix_def)
    then have w': "w' \<noteq> []" "prefix w' s" using False p by auto
    then obtain t where "s = NL # t" using assms(2) by (cases s) auto
    then have "hd w' = NL" using w' by (cases w') auto
    then have "NL \<in> set w'" using w'(1) by (cases w') auto
    moreover have "set w' \<subseteq> set (tl w)" using w a by (cases u2) auto
    ultimately show False using assms(3) by blast
  qed
qed

lemma plain_unbroken: "plain x \<Longrightarrow> unbroken x"
proof -
  assume a: "plain x"
  have "sublist ''# ='' (NL # ''# ='')" by (simp add: sublist_Cons_right)
  then show "unbroken x"
    using a unfolding plain_def unbroken_def by (meson sublist_order.order.trans)
qed

lemma unbroken_quiet:
  assumes "unbroken x" "s = [] \<or> prefix [NL] s"
  shows "quiet (NL # ''# ='') x s"
  using assms by (intro quiet_nl) (simp_all add: unbroken_def)

lemma plain_quiet:
  assumes "plain x" "s = [] \<or> prefix [NL] s"
  shows "quiet ''# ='' x s" "quiet (NL # ''# ='') x s"
proof -
  show "quiet ''# ='' x s" using assms by (intro quiet_nl) (simp_all add: plain_def)
  show "quiet (NL # ''# ='') x s" using assms(1) [THEN plain_unbroken] assms(2) by (rule unbroken_quiet)
qed

section \<open>Decoding a document of blocks\<close>

lemma peer_pattern_unfold:
  "match_here PEER_PATTERN q t =
     m Bol (m (Lit ''# '') (m (Plus (Ch (CHR ''=''))) (m (Lit (NL # ''# ClientName: ''))
       (m (Group 1 (LazyPlus AnyChar)) (m (Lit (NL # ''# AddedAt: ''))
       (m (Group 2 (LazyPlus AnyChar)) (m (Lit (NL # ''# '')) (m (Plus (Ch (CHR ''='')))
       (m (Lit (NL # ''[Peer]'' @ [NL])) (m (Group 3 (LazyStar AnyChar))
       (m lookahead Some))))))))))) (q, t, [])"
  by (simp only: match_here_def PEER_PATTERN_def seqs.simps m_Seq lookahead_def)

lemma peer_needs_banner: "\<not> prefix ''# ='' t \<Longrightarrow> match_here PEER_PATTERN q t = None"
proof -
  assume n: "\<not> prefix ''# ='' t"
  let ?k = "m (Plus (Ch (CHR ''=''))) (m (Lit (NL # ''# ClientName: ''))
       (m (Group 1 (LazyPlus AnyChar)) (m (Lit (NL # ''# AddedAt: ''))
       (m (Group 2 (LazyPlus AnyChar)) (m (Lit (NL # ''# '')) (m (Plus (Ch (CHR ''='')))
       (m (Lit (NL # ''[Peer]'' @ [NL])) (m (Group 3 (LazyStar AnyChar))
       (m lookahead Some)))))))))"
  have "m (Lit ''# '') ?k (q, t, []) = None"
  proof (cases "prefix ''# '' t")
    case True
    then obtain t' where t: "t = ''# '' @ t'" by (auto simp add: prefix_def)
    then have "\<not> prefix [CHR ''=''] t'" using n by (auto simp add: prefix_def)
    then have "?k (Some (CHR '' ''), t', []) = None" by (rule plus_fail)
    then show ?thesis unfolding t by simp
  next
    case False
    then show ?thesis by simp
  qed
  then show ?thesis unfolding peer_pattern_unfold by simp
qed

lemma block_text_tail:
  "block_text n d body @ s =
     NL # ''# '' @ replicate (Suc 41) (CHR ''='') @ (NL # ''# ClientName: '') @ n
       @ (NL # ''# AddedAt: '') @ d @ (NL # ''# '') @ replicate (Suc 41) (CHR ''='')
       @ (NL # ''[Peer]'' @ [NL]) @ body @ s"
proof -
  have "(42::nat) = Suc 41" by simp
  then have "replicate 42 (CHR ''='') = replicate (Suc 41) (CHR ''='')" by (rule arg_cong)
  then show ?thesis by (simp add: block_text_def BANNER_def del: replicate.simps)
qed

lemma peer_match_block:
  assumes "line n" "line d" "quiet (NL # ''# ='') body s" "s = [] \<or> prefix (NL # ''# ='') s"
  shows "\<exists>p'. match_here PEER_PATTERN (Some NL) (tl (block_text n d body @ s))
     = Some (p', s, [(3, body), (2, d), (1, n)])"
proof -
  let ?k11 = "m lookahead Some"
  let ?k10 = "m (Group 3 (LazyStar AnyChar)) ?k11"
  let ?k9 = "m (Lit (NL # ''[Peer]'' @ [NL])) ?k10"
  let ?k8 = "m (Plus (Ch (CHR ''=''))) ?k9"
  let ?k7 = "m (Lit (NL # ''# '')) ?k8"
  let ?k6 = "m (Group 2 (LazyPlus AnyChar)) ?k7"
  let ?k5 = "m (Lit (NL # ''# AddedAt: '')) ?k6"
  let ?k4 = "m (Group 1 (LazyPlus AnyChar)) ?k5"
  let ?k3 = "m (Lit (NL # ''# ClientName: '')) ?k4"
  let ?k2 = "m (Plus (Ch (CHR ''=''))) ?k3"
  let ?k1 = "m (Lit ''# '') ?k2"
  let ?e = "replicate (Suc 41) (CHR ''='')"
  let ?t9 = "(NL # ''[Peer]'' @ [NL]) @ body @ s"
  let ?t7 = "(NL # ''# '') @ ?e @ ?t9"
  let ?t5 = "(NL # ''# AddedAt: '') @ d @ ?t7"
  let ?t3 = "(NL # ''# ClientName: '') @ n @ ?t5"
  have a10: "accepts ?k10 (body @ s) s [(3, body)]"
    using assms(3,4) by (rule accepts_group_body)
  have a9: "accepts ?k9 ?t9 s [(3, body)]" using a10 by (rule accepts_Lit)
  have "accepts ?k8 (?e @ NL # (''[Peer]'' @ [NL]) @ body @ s) s [(3, body)]"
    using a9 by (intro accepts_banner_run) simp
  then have a8: "accepts ?k8 (?e @ ?t9) s [(3, body)]" by simp
  have a7: "accepts ?k7 ?t7 s [(3, body)]" using a8 by (rule accepts_Lit)
  have a6: "accepts ?k6 (d @ ?t7) s ([(3, body)] @ [(2, d)])"
    using assms(2) nl_only_Lit a7 by (rule accepts_group_line)
  have a5: "accepts ?k5 ?t5 s ([(3, body)] @ [(2, d)])" using a6 by (rule accepts_Lit)
  have a4: "accepts ?k4 (n @ ?t5) s (([(3, body)] @ [(2, d)]) @ [(1, n)])"
    using assms(1) nl_only_Lit a5 by (rule accepts_group_line)
  have a3: "accepts ?k3 ?t3 s (([(3, body)] @ [(2, d)]) @ [(1, n)])" using a4 by (rule accepts_Lit)
  have "accepts ?k2 (?e @ NL # ''# ClientName: '' @ n @ ?t5) s (([(3, body)] @ [(2, d)]) @ [(1, n)])"
    using a3 by (intro accepts_banner_run) simp
  then have a2: "accepts ?k2 (?e @ ?t3) s (([(3, body)] @ [(2, d)]) @ [(1, n)])" by simp
  have a1: "accepts ?k1 (''# '' @ ?e @ ?t3) s (([(3, body)] @ [(2, d)]) @ [(1, n)])"
    using a2 by (rule accepts_Lit)
  have t: "tl (block_text n d body @ s) = ''# '' @ ?e @ ?t3"
    unfolding block_text_tail by simp
  obtain p' where "?k1 (Some NL, ''# '' @ ?e @ ?t3, []) = Some (p', s, [(3, body), (2, d), (1, n)])"
    using a1 unfolding accepts_def by fastforce
  then show ?thesis unfolding peer_pattern_unfold t by simp
qed


lemma finditer_miss:
  "match_here r q (x # t) = None \<Longrightarrow> finditer_from r q (x # t) = finditer_from r (Some x) t"
  by (subst finditer_from.simps) simp

lemma finditer_end: "match_here r q [] = None \<Longrightarrow> finditer_from r q [] = []"
  by (subst finditer_from.simps) simp

lemma finditer_hit:
  assumes "match_here r q t = Some (p', s, cs)" "length s < length t"
  shows "finditer_from r q t = cs # finditer_from r p' s"
  using assms by (subst finditer_from.simps) simp

lemma finditer_skip:
  assumes "\<And>u1 u2 q. u = u1 @ u2 \<Longrightarrow> u2 \<noteq> [] \<Longrightarrow> match_here r q (u2 @ s) = None"
  shows "\<exists>q'. finditer_from r q (u @ s) = finditer_from r q' s"
  using assms
proof (induction u arbitrary: q)
  case Nil
  show ?case by auto
next
  case (Cons x u)
  have "match_here r q (x # u @ s) = None" using Cons.prems [of "[]" "x # u" q] by simp
  then have a: "finditer_from r q ((x # u) @ s) = finditer_from r (Some x) (u @ s)"
    by (simp add: finditer_miss)
  have "\<exists>q'. finditer_from r (Some x) (u @ s) = finditer_from r q' s"
  proof (rule Cons.IH)
    fix u1 u2 q assume "u = u1 @ u2" "u2 \<noteq> []"
    then show "match_here r q (u2 @ s) = None" using Cons.prems [of "x # u1" u2 q] by simp
  qed
  then show ?case using a by simp
qed

lemma blocks_text_Cons:
  "blocks_text ((n, d, body) # bs) = block_text n d body @ blocks_text bs"
  by (simp add: blocks_text_def)

lemma blocks_text_start: "blocks_text bs = [] \<or> prefix (NL # ''# ='') (blocks_text bs)"
proof (cases bs)
  case Nil
  then show ?thesis by (simp add: blocks_text_def)
next
  case (Cons b bs')
  obtain n d body where b: "b = (n, d, body)" by (cases b) auto
  have "\<exists>r. block_text n d body @ blocks_text bs' = NL # CHR ''#'' # CHR '' '' # CHR ''='' # r"
    by (simp only: block_text_tail replicate.simps append.simps) blast
  then show ?thesis unfolding Cons b blocks_text_Cons by auto
qed

lemma blocks_text_start_nl: "blocks_text bs = [] \<or> prefix [NL] (blocks_text bs)"
  using blocks_text_start [of bs] by (auto simp add: prefix_def)

lemma finditer_blocks:
  assumes "\<forall>b\<in>set bs. wf_block b"
  shows "finditer_from PEER_PATTERN q (blocks_text bs)
     = map (\<lambda>(n, d, body). [(3, body), (2, d), (1, n)]) bs"
  using assms
proof (induction bs arbitrary: q)
  case Nil
  have "match_here PEER_PATTERN q [] = None" by (rule peer_needs_banner) simp
  then show ?case by (simp add: blocks_text_def finditer_end)
next
  case (Cons b bs)
  obtain n d body where b: "b = (n, d, body)" by (cases b) auto
  have wf: "line n" "line d" "unbroken body" using Cons.prems b by (simp_all add: wf_block_def)
  let ?s = "blocks_text bs"
  let ?t = "block_text n d body @ ?s"
  have nl: "?t = NL # tl ?t" by (simp add: block_text_def)
  have "match_here PEER_PATTERN q (NL # tl ?t) = None" by (rule peer_needs_banner) simp
  then have 1: "finditer_from PEER_PATTERN q ?t = finditer_from PEER_PATTERN (Some NL) (tl ?t)"
    using nl finditer_miss by metis
  have qu: "quiet (NL # ''# ='') body ?s"
    using wf(3) blocks_text_start_nl by (rule unbroken_quiet)
  obtain p' where mt: "match_here PEER_PATTERN (Some NL) (tl ?t) = Some (p', ?s, [(3, body), (2, d), (1, n)])"
    using peer_match_block [OF wf(1,2) qu blocks_text_start] by blast
  have "length ?s < length (tl ?t)" by (simp add: block_text_def)
  with mt have 2: "finditer_from PEER_PATTERN (Some NL) (tl ?t)
      = [(3, body), (2, d), (1, n)] # finditer_from PEER_PATTERN p' ?s"
    by (rule finditer_hit)
  have "finditer_from PEER_PATTERN p' ?s = map (\<lambda>(n, d, body). [(3, body), (2, d), (1, n)]) bs"
    using Cons.prems by (intro Cons.IH) simp
  then show ?case using 1 2 by (simp add: b blocks_text_Cons)
qed

lemma finditer_document:
  assumes "plain pre" "\<forall>b\<in>set bs. wf_block b"
  shows "finditer PEER_PATTERN (pre @ blocks_text bs)
     = map (\<lambda>(n, d, body). [(3, body), (2, d), (1, n)]) bs"
proof -
  have q: "quiet ''# ='' pre (blocks_text bs)"
    using assms(1) blocks_text_start_nl by (rule plain_quiet)
  have "\<exists>q'. finditer_from PEER_PATTERN None (pre @ blocks_text bs)
      = finditer_from PEER_PATTERN q' (blocks_text bs)"
  proof (rule finditer_skip)
    fix u1 u2 q assume "pre = u1 @ u2" "u2 \<noteq> []"
    then have "\<not> prefix ''# ='' (u2 @ blocks_text bs)" using q unfolding quiet_def by blast
    then show "match_here PEER_PATTERN q (u2 @ blocks_text bs) = None" by (rule peer_needs_banner)
  qed
  then show ?thesis using finditer_blocks [OF assms(2)] by (auto simp add: finditer_def)
qed

lemma map_filter_map: "List.map_filter f (map g xs) = List.map_filter (f \<circ> g) xs"
  by (induction xs) (simp_all split: option.splits)


lemma parse_document:
  assumes "plain pre" "\<forall>b\<in>set bs. wf_block b"
  shows "parse_text (pre @ blocks_text bs) = List.map_filter block_record bs"
proof -
  have "block_record = peer_of_match \<circ> (\<lambda>(n, d, body). [(3, body), (2, d), (1, n)])"
    by (rule ext) (simp add: block_record_def split: prod.splits)
  then show ?thesis
    by (simp add: parse_text_def finditer_document [OF assms] map_filter_map)
qed



lemma peer_of_match_None:
  "(peer_of_match mt = None) =
     (search PUBKEY_PATTERN (group mt 3) = None \<or> search ALLOWED_IPS_PATTERN (group mt 3) = None)"
  by (simp add: peer_of_match_def Let_def split: option.splits)

lemma peer_of_match_header:
  "peer_of_match mt = Some p \<Longrightarrow> name p = strip (group mt 1) \<and> added_at p = strip (group mt 2)"
  by (auto simp add: peer_of_match_def Let_def split: option.splits)

text \<open>
  In a document made of a preamble without banner start and blocks that each begin on a line
  of their own after an empty line start, with one-line header values and bodies in which no
  line end is followed by a banner start, \<open>parse_peers\<close> returns, in the order of the blocks, the records of
  the blocks whose body has a \<open>PublicKey\<close> and an \<open>AllowedIPs\<close> entry; a block without one
  of them yields no record and no error, and the other blocks are decoded all the same.
\<close>

lemma decode_skips_malformed_blocks:
  assumes "plain pre" "\<forall>b\<in>set bs. wf_block b"
  shows "parse_text (pre @ blocks_text bs) = List.map_filter block_record bs
     \<and> (\<forall>n d body. (block_record (n, d, body) = None) =
           (search PUBKEY_PATTERN body = None \<or> search ALLOWED_IPS_PATTERN body = None))
     \<and> (\<forall>n d body p. block_record (n, d, body) = Some p
           \<longrightarrow> name p = strip n \<and> added_at p = strip d)"
proof -
  have 1: "parse_text (pre @ blocks_text bs) = List.map_filter block_record bs"
    using assms by (rule parse_document)
  have 2: "(block_record (n, d, body) = None) =
      (search PUBKEY_PATTERN body = None \<or> search ALLOWED_IPS_PATTERN body = None)" for n d body
    by (simp add: block_record_def peer_of_match_None group_def)
  have 3: "name p = strip n \<and> added_at p = strip d" if "block_record (n, d, body) = Some p"
    for n d body p
    using that peer_of_match_header [of "[(3, body), (2, d), (1, n)]" p]
    by (simp add: block_record_def group_def)
  show ?thesis using 1 2 3 by blast
qed

lemma demo_block_records:
  "block_record (''laptop'', ''2026-01-27'', ''PublicKey = KEY1\<newline>AllowedIPs = 10.8.0.5/32\<newline>'') =
     Some \<lparr> name = ''laptop'', public_key = ''KEY1'', allowed_ips = ''10.8.0.5/32'',
        added_at = ''2026-01-27'', endpoint = None, preshared_key = None,
        latest_handshake = None, transfer_rx = None, transfer_tx = None \<rparr>"
  "block_record (''broken'', ''2026-01-28'', ''PublicKey = KEY2\<newline>'') = None"
  "block_record (''phone'', ''2026-01-29'', ''PublicKey = KEY3\<newline>AllowedIPs = 10.8.0.7/32\<newline>'') =
     Some \<lparr> name = ''phone'', public_key = ''KEY3'', allowed_ips = ''10.8.0.7/32'',
        added_at = ''2026-01-29'', endpoint = None, preshared_key = None,
        latest_handshake = None, transfer_rx = None, transfer_tx = None \<rparr>"
  by code_simp+

lemma demo_blocks_wf: "plain ''[Interface]\<newline>Address = 10.8.0.1/24\<newline>''"
  "\<forall>b\<in>set demo_blocks. wf_block b"
  by (simp_all add: demo_blocks_def wf_block_def line_def plain_def unbroken_def sublist_Cons_right)

lemma decode_demo_blocks:
  "parse_text (''[Interface]\<newline>Address = 10.8.0.1/24\<newline>'' @ blocks_text demo_blocks) =
     [\<lparr> name = ''laptop'', public_key = ''KEY1'', allowed_ips = ''10.8.0.5/32'',
        added_at = ''2026-01-27'', endpoint = None, preshared_key = None,
        latest_handshake = None, transfer_rx = None, transfer_tx = None \<rparr>,
      \<lparr> name = ''phone'', public_key = ''KEY3'', allowed_ips = ''10.8.0.7/32'',
        added_at = ''2026-01-29'', endpoint = None, preshared_key = None,
        latest_handshake = None, transfer_rx = None, transfer_tx = None \<rparr>]"
proof -
  have "List.map_filter block_record demo_blocks =
     [\<lparr> name = ''laptop'', public_key = ''KEY1'', allowed_ips = ''10.8.0.5/32'',
        added_at = ''2026-01-27'', endpoint = None, preshared_key = None,
        latest_handshake = None, transfer_rx = None, transfer_tx = None \<rparr>,
      \<lparr> name = ''phone'', public_key = ''KEY3'', allowed_ips = ''10.8.0.7/32'',
        added_at = ''2026-01-29'', endpoint = None, preshared_key = None,
        latest_handshake = None, transfer_rx = None, transfer_tx = None \<rparr>]"
    unfolding demo_blocks_def by (simp add: demo_block_records)
  then show ?thesis
    using decode_skips_malformed_blocks [OF demo_blocks_wf] by simp
qed

text \<open>
  Claim C8, at a block with an empty body that the next block follows directly. The pattern
  ends a body only before a line end followed by a banner, and the line end after \<open>[Peer]\<close>
  is already consumed: the body of the empty block runs on through the header of the next
  block, up to the line end before that block's second banner. The empty block is skipped for
  want of a \<open>PublicKey\<close>, and what remains of the next block no longer matches, so that
  well-formed block is lost. With one empty line between the two blocks it is decoded.
\<close>

theorem decode_empty_body_swallows_next_block:
  "parse_text good_block =
     [\<lparr> name = ''laptop'', public_key = ''KEY1'', allowed_ips = ''10.8.0.5/32'',
        added_at = ''2026-01-28'', endpoint = None, preshared_key = None,
        latest_handshake = None, transfer_rx = None, transfer_tx = None \<rparr>]
   \<and> parse_text (empty_block @ NL # good_block) = parse_text good_block
   \<and> finditer PEER_PATTERN (empty_block @ good_block) =
       [[(3, ''# ==\<newline># ClientName: laptop\<newline># AddedAt: 2026-01-28''),
         (2, ''2026-01-27''), (1, ''broken'')]]
   \<and> parse_text (empty_block @ good_block) = []"
  by code_simp

section \<open>Entries of a block body\<close>

lemma quiet_Nil: "quiet w [] s"
  by (simp add: quiet_def)

lemma quiet_Cons: "quiet w (x # u) s = (\<not> prefix w (x # u @ s) \<and> quiet w u s)"
proof
  assume a: "quiet w (x # u) s"
  have 1: "\<not> prefix w (x # u @ s)" using a [unfolded quiet_def, rule_format, of "[]" "x # u"] by simp
  have 2: "quiet w u s"
    unfolding quiet_def
  proof (intro allI impI)
    fix u1 u2 assume "u = u1 @ u2 \<and> u2 \<noteq> []"
    then show "\<not> prefix w (u2 @ s)"
      using a [unfolded quiet_def, rule_format, of "x # u1" u2] by simp
  qed
  show "\<not> prefix w (x # u @ s) \<and> quiet w u s" using 1 2 by simp
next
  assume a: "\<not> prefix w (x # u @ s) \<and> quiet w u s"
  show "quiet w (x # u) s"
    unfolding quiet_def
  proof (intro allI impI)
    fix u1 u2 assume b: "x # u = u1 @ u2 \<and> u2 \<noteq> []"
    show "\<not> prefix w (u2 @ s)"
    proof (cases u1)
      case Nil
      then show ?thesis using a b by auto
    next
      case (Cons y u1')
      then have "u = u1' @ u2" using b by simp
      then show ?thesis using a b unfolding quiet_def by blast
    qed
  qed
qed

lemma quiet_append: "quiet w (u @ v) s = (quiet w u (v @ s) \<and> quiet w v s)"
  by (induction u) (simp_all add: quiet_Nil quiet_Cons)

lemma quiet_hd:
  assumes "\<not> sublist w x" "s = [] \<or> hd s \<notin> set (tl w)"
  shows "quiet w x s"
  unfolding quiet_def
proof (intro allI impI notI)
  fix u1 u2 assume a: "x = u1 @ u2 \<and> u2 \<noteq> []" and p: "prefix w (u2 @ s)"
  show False
  proof (cases "length w \<le> length u2")
    case True
    have "prefix u2 (u2 @ s)" by simp
    with p have "prefix w u2" using True by (rule prefix_length_prefix)
    then obtain r where "u2 = w @ r" by (auto simp add: prefix_def)
    then have "x = u1 @ w @ r" using a by simp
    then have "sublist w x" by (auto simp add: sublist_def)
    then show False using assms(1) by simp
  next
    case False
    have "prefix u2 (u2 @ s)" by simp
    then have "prefix u2 w" using p
    proof (rule prefix_length_prefix)
      show "length u2 \<le> length w" using False by simp
    qed
    then obtain w' where w: "w = u2 @ w'" by (auto simp add: prefix_def)
    then have w': "w' \<noteq> []" "prefix w' s" using False p by auto
    then have "s \<noteq> []" by auto
    then have "hd w' = hd s" using w' by (cases w'; cases s) auto
    then have "hd s \<in> set w'" using w'(1) by (cases w') auto
    moreover have "set w' \<subseteq> set (tl w)" using w a by (cases u2) auto
    ultimately show False using assms(2) \<open>s \<noteq> []\<close> by blast
  qed
qed

lemma field_unfold:
  "match_here (field_pattern K) q t =
     m (Lit K) (m (Star Space) (m (Lit ''='') (m (Star Space)
       (m (Group 1 (Plus NotNL)) Some)))) (q, t, [])"
  by (simp only: match_here_def field_pattern_def seqs.simps m_Seq)

lemma field_needs_key: "\<not> prefix K t \<Longrightarrow> match_here (field_pattern K) q t = None"
  unfolding field_unfold by simp

lemma greedy_success:
  assumes "list_all (cc cl) u" "s = [] \<or> \<not> cc cl (hd s)" "\<And>q. \<exists>p'. k (q, s, c) = Some (p', r)"
  shows "\<exists>p'. greedy cl k (q, u @ s, c) = Some (p', r)"
  using assms(1)
proof (induction u arbitrary: q)
  case Nil
  have "greedy cl k (q, s, c) = k (q, s, c)" using assms(2) by (cases s) auto
  then show ?case using assms(3) by simp
next
  case (Cons x u)
  obtain p' where "greedy cl k (Some x, u @ s, c) = Some (p', r)"
    using Cons.IH [of "Some x"] Cons.prems by auto
  then show ?case using Cons.prems by simp
qed

lemma isspace_facts: "isspace (CHR '' '')" "\<not> isspace (CHR ''='')" "isspace NL"
  by (simp_all add: isspace_def)

lemma field_value:
  assumes "line v" "s = [] \<or> prefix [NL] s"
  shows "\<exists>p'. m (Group 1 (Plus NotNL)) Some (q, v @ s, []) = Some (p', s, [(1, v)])"
proof -
  obtain x v' where v: "v = x # v'" using assms(1) by (cases v) (auto simp add: line_def)
  have x: "x \<noteq> NL" and v': "list_all (cc NotNL) v'"
    using assms(1) unfolding v line_def by (auto simp add: list_all_iff)
  let ?K = "\<lambda>(p', s', c'). Some (p', s', (1, take (length (v @ s) - length s') (v @ s)) # c')"
  have e: "s = [] \<or> \<not> cc NotNL (hd s)" using assms(2) by (cases s) auto
  have k: "\<And>q. \<exists>p'. ?K (q, s, []) = Some (p', s, [(1, v)])" by simp
  obtain p' where "greedy NotNL ?K (Some x, v' @ s, []) = Some (p', s, [(1, v)])"
    using greedy_success [where cl = NotNL and k = ?K and r = "(s, [(1, v)])", OF v' e k] by blast
  then have "m (Group 1 (Plus NotNL)) Some (q, v @ s, []) = Some (p', s, [(1, v)])"
    using x unfolding v by simp
  then show ?thesis by blast
qed

lemma field_match:
  assumes "line v" "\<not> isspace (hd v)" "s = [] \<or> prefix [NL] s"
  shows "\<exists>p'. match_here (field_pattern K) q (K @ '' = '' @ v @ s) = Some (p', s, [(1, v)])"
proof -
  let ?k5 = "m (Group 1 (Plus NotNL)) Some"
  let ?k4 = "m (Star Space) ?k5"
  let ?k3 = "m (Lit ''='') ?k4"
  let ?k2 = "m (Star Space) ?k3"
  obtain x v' where v: "v = x # v'" using assms(1) by (cases v) (auto simp add: line_def)
  have x: "\<not> isspace x" using assms(2) v by simp
  obtain p' where 5: "?k5 (Some (CHR '' ''), v @ s, []) = Some (p', s, [(1, v)])"
    using field_value [OF assms(1,3)] by blast
  have "greedy Space ?k5 (Some (CHR '' ''), x # v' @ s, []) = ?k5 (Some (CHR '' ''), x # v' @ s, [])"
    using x by simp
  then have g: "greedy Space ?k5 (Some (CHR '' ''), v @ s, []) = Some (p', s, [(1, v)])"
    using 5 unfolding v by simp
  have 4: "?k4 (q', CHR '' '' # v @ s, []) = Some (p', s, [(1, v)])" for q'
    using g by (simp add: isspace_facts)
  have 3: "?k3 (q', CHR ''='' # CHR '' '' # v @ s, []) = Some (p', s, [(1, v)])" for q'
    using 4 by simp
  have 2: "?k2 (q', CHR '' '' # CHR ''='' # CHR '' '' # v @ s, []) = Some (p', s, [(1, v)])" for q'
    using 3 [of "Some (CHR '' '')"] by (simp add: isspace_facts)
  have "m (Lit K) ?k2 (q, K @ '' = '' @ v @ s, []) = Some (p', s, [(1, v)])"
    using 2 by simp
  then show ?thesis unfolding field_unfold by blast
qed

lemma search_hit: "match_here r q t = Some (p', s', cs) \<Longrightarrow> search_from r q t = Some cs"
  by (cases t) simp_all

lemma search_end: "match_here r q [] = None \<Longrightarrow> search_from r q [] = None"
  by simp

lemma search_skip:
  assumes "\<And>u1 u2 q. u = u1 @ u2 \<Longrightarrow> u2 \<noteq> [] \<Longrightarrow> match_here r q (u2 @ s) = None"
  shows "\<exists>q'. search_from r q (u @ s) = search_from r q' s"
  using assms
proof (induction u arbitrary: q)
  case Nil
  show ?case by auto
next
  case (Cons x u)
  have "match_here r q (x # u @ s) = None" using Cons.prems [of "[]" "x # u" q] by simp
  then have a: "search_from r q ((x # u) @ s) = search_from r (Some x) (u @ s)" by simp
  have "\<exists>q'. search_from r (Some x) (u @ s) = search_from r q' s"
  proof (rule Cons.IH)
    fix u1 u2 q assume "u = u1 @ u2" "u2 \<noteq> []"
    then show "match_here r q (u2 @ s) = None" using Cons.prems [of "x # u1" u2 q] by simp
  qed
  then show ?case using a by simp
qed

lemma field_search_skip:
  assumes "quiet K u s"
  shows "\<exists>q'. search_from (field_pattern K) q (u @ s) = search_from (field_pattern K) q' s"
proof (rule search_skip)
  fix u1 u2 q assume "u = u1 @ u2" "u2 \<noteq> []"
  then have "\<not> prefix K (u2 @ s)" using assms unfolding quiet_def by blast
  then show "match_here (field_pattern K) q (u2 @ s) = None" by (rule field_needs_key)
qed

lemma field_search_hit:
  assumes "quiet K u (K @ '' = '' @ v @ s)" "line v" "\<not> isspace (hd v)" "s = [] \<or> prefix [NL] s"
  shows "search (field_pattern K) (u @ K @ '' = '' @ v @ s) = Some [(1, v)]"
proof -
  let ?t = "K @ '' = '' @ v @ s"
  obtain q' where a: "search_from (field_pattern K) None (u @ ?t) = search_from (field_pattern K) q' ?t"
    using field_search_skip [OF assms(1)] by blast
  obtain p' where "match_here (field_pattern K) q' ?t = Some (p', s, [(1, v)])"
    using field_match [OF assms(2,3,4)] by blast
  then have "search_from (field_pattern K) q' ?t = Some [(1, v)]" by (rule search_hit)
  then show ?thesis using a by (simp add: search_def)
qed

lemma field_search_none:
  assumes "quiet K u []" "K \<noteq> []"
  shows "search (field_pattern K) u = None"
proof -
  obtain q' where a: "search_from (field_pattern K) None (u @ []) = search_from (field_pattern K) q' []"
    using field_search_skip [OF assms(1)] by blast
  have "match_here (field_pattern K) q' [] = None" using assms(2) by (intro field_needs_key) simp
  then show ?thesis using a by (simp add: search_def)
qed



lemma generate_block_text:
  "generate_peer_block nm pubkey assigned_ip added ep psk
     = block_text nm added (peer_body pubkey assigned_ip ep psk)"
  by (simp add: generate_peer_block_def block_text_def peer_body_def)

lemma peer_body_text:
  "peer_body pk h ep psk =
     ''PublicKey = '' @ pk @ NL # ''AllowedIPs = '' @ h @ ''/32''
       @ (if truthy psk then NL # ''PresharedKey = '' @ the psk else [])
       @ (if truthy ep then NL # ''Endpoint = '' @ the ep else [])"
  by (simp add: peer_body_def)

lemma strip_clean: "clean s \<Longrightarrow> strip s = s"
proof -
  assume a: "clean s"
  then obtain x v where s: "s = x # v" by (cases s) (auto simp add: clean_def line_def)
  have 1: "lstrip s = s" using a unfolding s by (simp add: lstrip_def clean_def)
  have "hd (rev s) = last s" using s by (simp add: hd_rev)
  then have "\<not> isspace (hd (rev s))" using a by (simp add: clean_def)
  then have "dropWhile isspace (rev s) = rev s" by (simp only: dropWhile_eq_self_iff) simp
  then have 2: "rstrip s = s" by (simp add: rstrip_def)
  show ?thesis using 1 2 by (simp add: strip_def)
qed

lemma clean_slash32: "clean h \<Longrightarrow> clean (h @ ''/32'')"
  by (cases h) (simp_all add: clean_def line_def isspace_def)

lemma opt_entry_cases:
  assumes "opt_entry v"
  obtains "v = None" "\<not> truthy v" | e where "v = Some e" "truthy v" "entry e"
  using assms by (cases v) (auto simp add: opt_entry_def truthy_def entry_def clean_def line_def)

lemma entry_facts:
  assumes "entry v"
  shows "line v" "\<not> isspace (hd v)" "NL \<notin> set v"
    "\<not> sublist ''AllowedIPs'' v" "\<not> sublist ''PresharedKey'' v" "\<not> sublist ''Endpoint'' v"
  using assms by (simp_all add: entry_def clean_def keyless_def line_def)

lemmas quiet_simps = quiet_Nil quiet_Cons quiet_append

lemma search_pubkey:
  assumes "entry pk"
  shows "search PUBKEY_PATTERN (peer_body pk h ep psk @ t) = Some [(1, pk)]"
proof -
  let ?s = "NL # ''AllowedIPs = '' @ h @ ''/32''
       @ (if truthy psk then NL # ''PresharedKey = '' @ the psk else [])
       @ (if truthy ep then NL # ''Endpoint = '' @ the ep else []) @ t"
  have "search (field_pattern ''PublicKey'') ([] @ ''PublicKey'' @ '' = '' @ pk @ ?s) = Some [(1, pk)]"
    using entry_facts(1,2) [OF assms] by (intro field_search_hit) (simp_all add: quiet_Nil)
  then show ?thesis by (simp add: PUBKEY_PATTERN_def peer_body_text)
qed

lemma search_allowed:
  assumes "entry pk" "entry h" "opt_entry ep" "opt_entry psk" "t = [] \<or> t = [NL]"
  shows "search ALLOWED_IPS_PATTERN (peer_body pk h ep psk @ t) = Some [(1, h @ ''/32'')]"
proof -
  let ?s = "(if truthy psk then NL # ''PresharedKey = '' @ the psk else [])
       @ (if truthy ep then NL # ''Endpoint = '' @ the ep else []) @ t"
  let ?u = "''PublicKey = '' @ pk @ [NL]"
  have s: "?s = [] \<or> prefix [NL] ?s" using assms(5) by auto
  have c: "clean (h @ ''/32'')" using assms(2) by (simp add: entry_def clean_slash32)
  have q: "quiet ''AllowedIPs'' pk r" if "r = [] \<or> hd r \<notin> set (tl ''AllowedIPs'')" for r
    using entry_facts(4) [OF assms(1)] that by (rule quiet_hd)
  have "search (field_pattern ''AllowedIPs'') (?u @ ''AllowedIPs'' @ '' = '' @ (h @ ''/32'') @ ?s)
      = Some [(1, h @ ''/32'')]"
  proof (rule field_search_hit)
    show "quiet ''AllowedIPs'' ?u (''AllowedIPs'' @ '' = '' @ (h @ ''/32'') @ ?s)"
      by (simp add: quiet_simps q)
    show "line (h @ ''/32'')" "\<not> isspace (hd (h @ ''/32''))" using c by (simp_all add: clean_def)
    show "?s = [] \<or> prefix [NL] ?s" by (rule s)
  qed
  then show ?thesis by (simp add: ALLOWED_IPS_PATTERN_def peer_body_text)
qed


lemma search_psk:
  assumes "entry pk" "entry h" "opt_entry ep" "opt_entry psk" "t = [] \<or> t = [NL]"
  shows "search PRESHARED_KEY_PATTERN (peer_body pk h ep psk @ t)
     = (if truthy psk then Some [(1, the psk)] else None)"
proof -
  let ?K = "''PresharedKey''"
  let ?e = "(if truthy ep then NL # ''Endpoint = '' @ the ep else [])"
  let ?u = "''PublicKey = '' @ pk @ NL # ''AllowedIPs = '' @ h @ ''/32''"
  have q1: "quiet ?K pk r" if "r = [] \<or> hd r \<notin> set (tl ?K)" for r
    using entry_facts(5) [OF assms(1)] that by (rule quiet_hd)
  have q2: "quiet ?K h r" if "r = [] \<or> hd r \<notin> set (tl ?K)" for r
    using entry_facts(5) [OF assms(2)] that by (rule quiet_hd)
  have qe: "quiet ?K ?e t"
  proof (rule opt_entry_cases [OF assms(3)])
    assume "ep = None" "\<not> truthy ep"
    then show ?thesis by (simp add: quiet_simps)
  next
    fix e assume e: "ep = Some e" "truthy ep" "entry e"
    have "quiet ?K e r" if "r = [] \<or> hd r \<notin> set (tl ?K)" for r
      using entry_facts(5) [OF e(3)] that by (rule quiet_hd)
    then show ?thesis using e(1,2) assms(5) by (auto simp add: quiet_simps)
  qed
  have qt: "quiet ?K t []" using assms(5) by (auto simp add: quiet_simps)
  show ?thesis
  proof (rule opt_entry_cases [OF assms(4)])
    assume n: "psk = None" "\<not> truthy psk"
    have "quiet ?K (?u @ ?e @ t) []"
      using qe qt by (simp add: quiet_simps q1 q2)
    then have "search (field_pattern ?K) (?u @ ?e @ t) = None" by (rule field_search_none) simp
    then show ?thesis using n by (simp add: PRESHARED_KEY_PATTERN_def peer_body_text)
  next
    fix p assume p: "psk = Some p" "truthy psk" "entry p"
    let ?s = "?e @ t"
    have s: "?s = [] \<or> prefix [NL] ?s" using assms(5) by auto
    have "search (field_pattern ?K) ((?u @ [NL]) @ ?K @ '' = '' @ p @ ?s) = Some [(1, p)]"
    proof (rule field_search_hit)
      show "quiet ?K (?u @ [NL]) (?K @ '' = '' @ p @ ?s)"
        by (simp add: quiet_simps q1 q2)
      show "line p" "\<not> isspace (hd p)" using entry_facts(1,2) [OF p(3)] by simp_all
      show "?s = [] \<or> prefix [NL] ?s" by (rule s)
    qed
    then show ?thesis using p by (simp add: PRESHARED_KEY_PATTERN_def peer_body_text)
  qed
qed

lemma search_endpoint:
  assumes "entry pk" "entry h" "opt_entry ep" "opt_entry psk" "t = [] \<or> t = [NL]"
  shows "search ENDPOINT_PATTERN (peer_body pk h ep psk @ t)
     = (if truthy ep then Some [(1, the ep)] else None)"
proof -
  let ?K = "''Endpoint''"
  let ?p = "(if truthy psk then NL # ''PresharedKey = '' @ the psk else [])"
  let ?u = "''PublicKey = '' @ pk @ NL # ''AllowedIPs = '' @ h @ ''/32''"
  have q1: "quiet ?K pk r" if "r = [] \<or> hd r \<notin> set (tl ?K)" for r
    using entry_facts(6) [OF assms(1)] that by (rule quiet_hd)
  have q2: "quiet ?K h r" if "r = [] \<or> hd r \<notin> set (tl ?K)" for r
    using entry_facts(6) [OF assms(2)] that by (rule quiet_hd)
  have qp: "quiet ?K ?p r" if "r = [] \<or> prefix [NL] r" for r
  proof (rule opt_entry_cases [OF assms(4)])
    assume "psk = None" "\<not> truthy psk"
    then show ?thesis by (simp add: quiet_simps)
  next
    fix p assume p: "psk = Some p" "truthy psk" "entry p"
    have "quiet ?K p r" if "r = [] \<or> hd r \<notin> set (tl ?K)" for r
      using entry_facts(6) [OF p(3)] that by (rule quiet_hd)
    then show ?thesis using p(1,2) that by (auto simp add: quiet_simps prefix_def)
  qed
  have qt: "quiet ?K t []" using assms(5) by (auto simp add: quiet_simps)
  show ?thesis
  proof (rule opt_entry_cases [OF assms(3)])
    assume n: "ep = None" "\<not> truthy ep"
    have "t = [] \<or> prefix [NL] t" using assms(5) by auto
    then have "quiet ?K ?p t" by (rule qp)
    then have "quiet ?K (?u @ ?p @ t) []"
      using qt by (simp add: quiet_simps q1 q2)
    then have "search (field_pattern ?K) (?u @ ?p @ t) = None" by (rule field_search_none) simp
    then show ?thesis using n by (simp add: ENDPOINT_PATTERN_def peer_body_text)
  next
    fix e assume e: "ep = Some e" "truthy ep" "entry e"
    have s: "t = [] \<or> prefix [NL] t" using assms(5) by auto
    have "quiet ?K ?p (NL # ?K @ '' = '' @ e @ t)" by (rule qp) simp
    then have "quiet ?K (?u @ ?p @ [NL]) (?K @ '' = '' @ e @ t)"
      by (simp add: quiet_simps q1 q2)
    then have "search (field_pattern ?K) ((?u @ ?p @ [NL]) @ ?K @ '' = '' @ e @ t) = Some [(1, e)]"
      using entry_facts(1,2) [OF e(3)] s by (rule field_search_hit)
    then show ?thesis using e by (simp add: ENDPOINT_PATTERN_def peer_body_text)
  qed
qed

lemma sublist_skip: "x \<notin> set a \<Longrightarrow> sublist (x # w) (a @ b) = sublist (x # w) b"
  by (induction a) (auto simp add: sublist_Cons_right)

lemma unbroken_peer_body:
  assumes "entry pk" "entry h" "opt_entry ep" "opt_entry psk" "t = [] \<or> t = [NL]"
  shows "unbroken (peer_body pk h ep psk @ t)"
proof -
  have 1: "NL \<notin> set pk" "NL \<notin> set h" using assms(1,2) by (simp_all add: entry_facts)
  have t: "\<not> sublist (NL # ''# ='') t" using assms(5) by (auto simp add: sublist_Cons_right)
  have e: "\<not> sublist (NL # ''# ='') ((if truthy ep then NL # ''Endpoint = '' @ the ep else []) @ t)"
  proof (rule opt_entry_cases [OF assms(3)])
    assume "ep = None" "\<not> truthy ep"
    then show ?thesis using t by simp
  next
    fix e assume e: "ep = Some e" "truthy ep" "entry e"
    have "NL \<notin> set e" using e(3) by (simp add: entry_facts)
    then show ?thesis using e(1,2) t by (simp add: sublist_Cons_right sublist_skip)
  qed
  have p: "\<not> sublist (NL # ''# ='') ((if truthy psk then NL # ''PresharedKey = '' @ the psk else [])
      @ (if truthy ep then NL # ''Endpoint = '' @ the ep else []) @ t)"
  proof (rule opt_entry_cases [OF assms(4)])
    assume "psk = None" "\<not> truthy psk"
    then show ?thesis using e by simp
  next
    fix p assume p: "psk = Some p" "truthy psk" "entry p"
    have "NL \<notin> set p" using p(3) by (simp add: entry_facts)
    then show ?thesis using p(1,2) e by (simp add: sublist_Cons_right sublist_skip)
  qed
  have "\<not> sublist (NL # ''# ='') (''PublicKey = '' @ pk @ NL # ''AllowedIPs = '' @ h @ ''/32''
      @ (if truthy psk then NL # ''PresharedKey = '' @ the psk else [])
      @ (if truthy ep then NL # ''Endpoint = '' @ the ep else []) @ t)"
    using p 1 by (simp add: sublist_Cons_right sublist_skip)
  then show ?thesis by (simp add: unbroken_def peer_body_text)
qed

lemma truthy_entry: "opt_entry v \<Longrightarrow> (if truthy v then Some (the v) else None) = v"
  by (rule opt_entry_cases) auto

lemma block_record_peer_body:
  assumes "clean n" "clean d" "entry pk" "entry h" "opt_entry ep" "opt_entry psk"
    "t = [] \<or> t = [NL]"
  shows "block_record (n, d, peer_body pk h ep psk @ t) = Some (peer_record n pk h d ep psk)"
proof -
  let ?b = "peer_body pk h ep psk @ t"
  have 1: "search PUBKEY_PATTERN ?b = Some [(1, pk)]" using assms(3) by (rule search_pubkey)
  have 2: "search ALLOWED_IPS_PATTERN ?b = Some [(1, h @ ''/32'')]"
    using assms(3-7) by (rule search_allowed)
  have 3: "search PRESHARED_KEY_PATTERN ?b = (if truthy psk then Some [(1, the psk)] else None)"
    using assms(3-7) by (rule search_psk)
  have 4: "search ENDPOINT_PATTERN ?b = (if truthy ep then Some [(1, the ep)] else None)"
    using assms(3-7) by (rule search_endpoint)
  have s: "strip n = n" "strip d = d" "strip pk = pk" "strip (h @ ''/32'') = h @ ''/32''"
    using assms(1-4) by (simp_all add: strip_clean entry_def clean_slash32)
  have se: "map_option (\<lambda>e. strip (group e 1)) (if truthy ep then Some [(1, the ep)] else None) = ep"
    by (rule opt_entry_cases [OF assms(5)]) (simp_all add: group_def strip_clean entry_def)
  have sp: "map_option (\<lambda>e. strip (group e 1)) (if truthy psk then Some [(1, the psk)] else None) = psk"
    by (rule opt_entry_cases [OF assms(6)]) (simp_all add: group_def strip_clean entry_def)
  have g: "group [(3, ?b), (2, d), (1, n)] 1 = n" "group [(3, ?b), (2, d), (1, n)] 2 = d"
    "group [(3, ?b), (2, d), (1, n)] 3 = ?b" "group [(1, pk)] 1 = pk"
    "group [(1, h @ ''/32'')] 1 = h @ ''/32''"
    by (simp_all add: group_def)
  show ?thesis
    unfolding block_record_def prod.case peer_of_match_def Let_def g 1 2 3 4 se sp s
    by (simp add: peer_record_def group_def s)
qed

section \<open>Encoding and decoding one record\<close>






section \<open>Adding a peer\<close>

lemma add_peer_success:
  assumes "\<not> list_ex (\<lambda>p. name p = nm) (parse_text (universal_newlines raw))"
    and "IPv4Address (host_part ip) = Inr a" "a \<noteq> SERVER_IP"
    and "\<forall>p\<in>set (parse_text (universal_newlines raw)).
           IPv4Address (host_part (allowed_ips p)) \<noteq> Inr a"
  shows "add_peer (Some raw) nm pk ip d ep psk =
     (Inr (), Some (rstrip (universal_newlines raw) @ [NL]
                      @ generate_peer_block nm pk ip d ep psk @ [NL]))"
proof -
  let ?c = "universal_newlines raw"
  have u: "get_used_ips (Some raw) (Some ?c) =
      Inr (insert SERVER_IP
            {a. \<exists>p\<in>set (parse_text ?c). IPv4Address (host_part (allowed_ips p)) = Inr a})"
    by (rule get_used_ips_eq) (simp add: parse_peers_def)
  have c: "check_ip_conflict (Some raw) ip (Some ?c) = Inr False"
    using assms(2,3,4) by (simp add: check_ip_conflict_def u)
  have n: "check_name_conflict (Some raw) nm (Some ?c) = Inr False"
    using assms(1) by (simp add: check_name_conflict_def parse_peers_def)
  show ?thesis by (simp add: add_peer_def read_config_def n c write_config_def)
qed

lemma rstrip_tail:
  assumes "\<not> isspace x" "list_all isspace ws"
  shows "rstrip (a @ x # ws) = a @ [x]"
proof -
  have "dropWhile isspace (rev ws @ x # rev a) = dropWhile isspace (x # rev a)"
    using assms(2) by (intro dropWhile_append2) (simp add: list_all_iff)
  then show ?thesis using assms(1) by (simp add: rstrip_def)
qed

lemma blocks_text_append: "blocks_text (bs @ cs) = blocks_text bs @ blocks_text cs"
  by (simp add: blocks_text_def)

lemma map_filter_app: "List.map_filter f (xs @ ys) = List.map_filter f xs @ List.map_filter f ys"
  by (simp add: List.map_filter_def)

lemma no_cr_block:
  assumes "no_cr nm" "no_cr d" "no_cr pk" "no_cr ip" "opt_no_cr ep" "opt_no_cr psk"
  shows "CR \<notin> set (generate_peer_block nm pk ip d ep psk)"
proof -
  have e: "CR \<notin> set (if truthy ep then NL # ''Endpoint = '' @ the ep else [])"
    using assms(5) by (cases ep) (simp_all add: opt_no_cr_def truthy_def)
  have p: "CR \<notin> set (if truthy psk then NL # ''PresharedKey = '' @ the psk else [])"
    using assms(6) by (cases psk) (simp_all add: opt_no_cr_def truthy_def)
  have "CR \<notin> set (peer_body pk ip ep psk)"
    using assms(3,4) e p unfolding peer_body_text by (simp add: no_cr_def)
  then show ?thesis
    using assms(1,2) by (simp add: generate_block_text block_text_def BANNER_def no_cr_def)
qed

lemma parse_appended_block:
  assumes "plain pre" "\<forall>b\<in>set bs. wf_block b"
    and "clean nm" "clean d" "entry pk" "entry ip" "opt_entry ep" "opt_entry psk"
  shows "parse_text ((pre @ blocks_text bs) @ generate_peer_block nm pk ip d ep psk @ [NL])
     = List.map_filter block_record bs @ [peer_record nm pk ip d ep psk]"
proof -
  let ?b = "(nm, d, peer_body pk ip ep psk @ [NL])"
  have u: "unbroken (peer_body pk ip ep psk @ [NL])"
    using assms(5-8) by (intro unbroken_peer_body) simp_all
  have wf: "\<forall>b\<in>set (bs @ [?b]). wf_block b"
    using assms(2,3,4) u by (simp add: wf_block_def clean_def)
  have r: "block_record ?b = Some (peer_record nm pk ip d ep psk)"
    using assms(3-8) by (intro block_record_peer_body) simp_all
  have t: "(pre @ blocks_text bs) @ generate_peer_block nm pk ip d ep psk @ [NL]
      = pre @ blocks_text (bs @ [?b])"
    by (simp add: blocks_text_append generate_block_text blocks_text_def block_text_def)
  have "parse_text (pre @ blocks_text (bs @ [?b])) = List.map_filter block_record (bs @ [?b])"
    using assms(1) wf by (rule parse_document)
  then show ?thesis unfolding t using r by (simp add: map_filter_app List.map_filter_def)
qed

text \<open>
  Claim C4, as the code has it. When no record of the file as read has the requested name, and
  the host portion of the requested address parses to an address that is neither the root nor
  the host portion of a record's \<open>allowed_ips\<close>, \<open>add_peer\<close> succeeds and writes the text it
  read, without its trailing white space, then a line end, the rendered block and a line end.
  If moreover the file has no carriage return, is its own text without trailing white space
  followed by one line end, and is a preamble without banner start followed by blocks laid out as
  \<open>generate_peer_block\<close> renders them, with one-line header values and bodies in which no line
  end is followed by a banner start, and if the supplied values are free of carriage returns, name and date
  non-empty single lines without white space at either end, the other values such lines
  without the words \<open>AllowedIPs\<close>, \<open>PresharedKey\<close> and \<open>Endpoint\<close>, then the new file is the old
  file followed by the rendered block and a line end, and decoding it gives the records of
  the old file, in order, followed by the new record with the supplied fields.
\<close>

theorem add_peer_appends_block:
  assumes "\<not> list_ex (\<lambda>p. name p = nm) (parse_text (universal_newlines raw))"
    and "IPv4Address (host_part ip) = Inr a" "a \<noteq> SERVER_IP"
    and "\<forall>p\<in>set (parse_text (universal_newlines raw)).
           IPv4Address (host_part (allowed_ips p)) \<noteq> Inr a"
  shows "add_peer (Some raw) nm pk ip d ep psk =
       (Inr (), Some (rstrip (universal_newlines raw) @ [NL]
                        @ generate_peer_block nm pk ip d ep psk @ [NL]))
     \<and> (no_cr raw \<and> rstrip raw @ [NL] = raw
        \<and> raw = pre @ blocks_text bs \<and> plain pre \<and> (\<forall>b\<in>set bs. wf_block b)
        \<and> no_cr nm \<and> no_cr d \<and> no_cr pk \<and> no_cr ip \<and> opt_no_cr ep \<and> opt_no_cr psk
        \<and> clean nm \<and> clean d \<and> entry pk \<and> entry ip \<and> opt_entry ep \<and> opt_entry psk
        \<longrightarrow> snd (add_peer (Some raw) nm pk ip d ep psk)
              = Some (raw @ generate_peer_block nm pk ip d ep psk @ [NL])
          \<and> parse_peers (Some raw) None = Inr (List.map_filter block_record bs)
          \<and> parse_peers (snd (add_peer (Some raw) nm pk ip d ep psk)) None
              = Inr (List.map_filter block_record bs @ [peer_record nm pk ip d ep psk]))"
proof -
  let ?g = "generate_peer_block nm pk ip d ep psk"
  have 1: "add_peer (Some raw) nm pk ip d ep psk =
       (Inr (), Some (rstrip (universal_newlines raw) @ [NL] @ ?g @ [NL]))"
    using assms by (rule add_peer_success)
  have 2: "snd (add_peer (Some raw) nm pk ip d ep psk) = Some (raw @ ?g @ [NL])
      \<and> parse_peers (Some raw) None = Inr (List.map_filter block_record bs)
      \<and> parse_peers (snd (add_peer (Some raw) nm pk ip d ep psk)) None
          = Inr (List.map_filter block_record bs @ [peer_record nm pk ip d ep psk])"
    if h: "no_cr raw" "rstrip raw @ [NL] = raw" "raw = pre @ blocks_text bs" "plain pre"
      "\<forall>b\<in>set bs. wf_block b" "no_cr nm" "no_cr d" "no_cr pk" "no_cr ip" "opt_no_cr ep"
      "opt_no_cr psk" "clean nm" "clean d" "entry pk" "entry ip" "opt_entry ep" "opt_entry psk"
  proof -
    have u: "universal_newlines raw = raw" using h(1) by (simp add: no_cr_def universal_newlines_id)
    have "rstrip raw @ [NL] @ ?g @ [NL] = (rstrip raw @ [NL]) @ ?g @ [NL]" by simp
    also have "\<dots> = raw @ ?g @ [NL]" unfolding h(2) ..
    finally have a: "snd (add_peer (Some raw) nm pk ip d ep psk) = Some (raw @ ?g @ [NL])"
      unfolding 1 u by simp
    have "CR \<notin> set ?g" using h(6-11) by (rule no_cr_block)
    then have "CR \<notin> set (raw @ ?g @ [NL])" using h(1) by (simp add: no_cr_def)
    then have r: "read_config (Some (raw @ ?g @ [NL])) = Inr (raw @ ?g @ [NL])"
      by (rule read_config_id)
    have "parse_text (raw @ ?g @ [NL])
        = List.map_filter block_record bs @ [peer_record nm pk ip d ep psk]"
      using parse_appended_block [OF h(4,5,12-17)] unfolding h(3) by simp
    then have b: "parse_peers (snd (add_peer (Some raw) nm pk ip d ep psk)) None
        = Inr (List.map_filter block_record bs @ [peer_record nm pk ip d ep psk])"
      unfolding a by (simp add: parse_peers_def r)
    have "parse_text raw = List.map_filter block_record bs"
      unfolding h(3) using h(4,5) by (rule parse_document)
    then have c: "parse_peers (Some raw) None = Inr (List.map_filter block_record bs)"
      using h(1) by (simp add: parse_peers_def read_config_id no_cr_def)
    show ?thesis using a b c by simp
  qed
  show ?thesis using 1 2 by blast
qed


lemma one_peer_facts:
  "no_cr one_peer"
  "rstrip one_peer @ [NL] = one_peer"
  "parse_text one_peer =
     [\<lparr> name = ''laptop'', public_key = ''KEY1'', allowed_ips = ''10.8.0.5/32'',
        added_at = ''2026-01-27'', endpoint = None, preshared_key = None,
        latest_handshake = None, transfer_rx = None, transfer_tx = None \<rparr>]"
  "plain ''[Interface]\<newline>Address = 10.8.0.1/24\<newline>''"
  "\<forall>b\<in>set [(''laptop'', ''2026-01-27'', ''PublicKey = KEY1\<newline>AllowedIPs = 10.8.0.5/32\<newline>'')].
     wf_block b"
proof -
  let ?pre = "''[Interface]\<newline>Address = 10.8.0.1/24\<newline>''"
  let ?bs = "[(''laptop'', ''2026-01-27'', ''PublicKey = KEY1\<newline>AllowedIPs = 10.8.0.5/32\<newline>'')]"
  show "no_cr one_peer"
    by (simp add: one_peer_def blocks_text_def block_text_def BANNER_def no_cr_def)
  have "one_peer = (?pre @ block_text ''laptop'' ''2026-01-27''
      ''PublicKey = KEY1\<newline>AllowedIPs = 10.8.0.5/3'') @ CHR ''2'' # [NL]"
    by (simp add: one_peer_def blocks_text_def block_text_def)
  moreover have "rstrip ((?pre @ block_text ''laptop'' ''2026-01-27''
      ''PublicKey = KEY1\<newline>AllowedIPs = 10.8.0.5/3'') @ CHR ''2'' # [NL])
      = (?pre @ block_text ''laptop'' ''2026-01-27''
      ''PublicKey = KEY1\<newline>AllowedIPs = 10.8.0.5/3'') @ [CHR ''2'']"
    by (rule rstrip_tail) (simp_all add: isspace_def)
  ultimately show "rstrip one_peer @ [NL] = one_peer" by simp
  show p: "plain ?pre" by (simp add: plain_def sublist_Cons_right)
  show wf: "\<forall>b\<in>set ?bs. wf_block b"
    by (simp add: wf_block_def line_def unbroken_def sublist_Cons_right)
  have "parse_text (?pre @ blocks_text ?bs) = List.map_filter block_record ?bs"
    using p wf by (rule parse_document)
  then show "parse_text one_peer =
     [\<lparr> name = ''laptop'', public_key = ''KEY1'', allowed_ips = ''10.8.0.5/32'',
        added_at = ''2026-01-27'', endpoint = None, preshared_key = None,
        latest_handshake = None, transfer_rx = None, transfer_tx = None \<rparr>]"
    unfolding one_peer_def by (simp add: List.map_filter_def demo_block_records)
qed

lemma host_part_plain: "CHR ''/'' \<notin> set h \<Longrightarrow> host_part h = h"
  by (simp add: host_part_def split_on_no_sep)

theorem add_peer_appends_block_witness:
  "add_peer (Some one_peer) ''phone'' ''KEY3'' ''10.8.0.7'' ''2026-01-29'' None (Some ''PSK'')
     = (Inr (), Some (one_peer
          @ generate_peer_block ''phone'' ''KEY3'' ''10.8.0.7'' ''2026-01-29'' None (Some ''PSK'')
          @ [NL]))
   \<and> parse_peers (Some one_peer) None =
       Inr [\<lparr> name = ''laptop'', public_key = ''KEY1'', allowed_ips = ''10.8.0.5/32'',
              added_at = ''2026-01-27'', endpoint = None, preshared_key = None,
              latest_handshake = None, transfer_rx = None, transfer_tx = None \<rparr>]
   \<and> parse_peers (Some (one_peer
          @ generate_peer_block ''phone'' ''KEY3'' ''10.8.0.7'' ''2026-01-29'' None (Some ''PSK'')
          @ [NL])) None =
       Inr [\<lparr> name = ''laptop'', public_key = ''KEY1'', allowed_ips = ''10.8.0.5/32'',
              added_at = ''2026-01-27'', endpoint = None, preshared_key = None,
              latest_handshake = None, transfer_rx = None, transfer_tx = None \<rparr>,
            \<lparr> name = ''phone'', public_key = ''KEY3'', allowed_ips = ''10.8.0.7/32'',
              added_at = ''2026-01-29'', endpoint = None, preshared_key = Some ''PSK'',
              latest_handshake = None, transfer_rx = None, transfer_tx = None \<rparr>]"
proof -
  let ?pre = "''[Interface]\<newline>Address = 10.8.0.1/24\<newline>''"
  let ?bs = "[(''laptop'', ''2026-01-27'', ''PublicKey = KEY1\<newline>AllowedIPs = 10.8.0.5/32\<newline>'')]"
  let ?g = "generate_peer_block ''phone'' ''KEY3'' ''10.8.0.7'' ''2026-01-29'' None (Some ''PSK'')"
  have u: "universal_newlines one_peer = one_peer"
    using one_peer_facts(1) by (simp add: no_cr_def universal_newlines_id)
  have h: "host_part ''10.8.0.7'' = ''10.8.0.7''" "host_part ''10.8.0.5/32'' = ''10.8.0.5''"
    by (simp_all add: host_part_def)
  have n: "\<not> list_ex (\<lambda>p. name p = ''phone'') (parse_text (universal_newlines one_peer))"
    unfolding u one_peer_facts(3) by simp
  have a: "IPv4Address (host_part ''10.8.0.7'') = Inr (ip4 10 8 0 7)"
    unfolding h by (rule IPv4Address_examples)
  have r: "ip4 10 8 0 7 \<noteq> SERVER_IP" by (simp add: SERVER_IP_def ip4_last_inj)
  have f: "\<forall>p\<in>set (parse_text (universal_newlines one_peer)).
      IPv4Address (host_part (allowed_ips p)) \<noteq> Inr (ip4 10 8 0 7)"
    unfolding u one_peer_facts(3) by (simp add: h IPv4Address_examples ip4_last_inj)
  have v: "no_cr ''phone''" "no_cr ''2026-01-29''" "no_cr ''KEY3''" "no_cr ''10.8.0.7''"
    "opt_no_cr None" "opt_no_cr (Some ''PSK'')"
    "clean ''phone''" "clean ''2026-01-29''" "entry ''KEY3''" "entry ''10.8.0.7''"
    "opt_entry None" "opt_entry (Some ''PSK'')"
    by (simp_all add: no_cr_def opt_no_cr_def opt_entry_def entry_def clean_def line_def
        isspace_def keyless_def sublist_Cons_right)
  have d: "one_peer = ?pre @ blocks_text ?bs" by (simp add: one_peer_def)
  have rec: "List.map_filter block_record ?bs =
      [\<lparr> name = ''laptop'', public_key = ''KEY1'', allowed_ips = ''10.8.0.5/32'',
        added_at = ''2026-01-27'', endpoint = None, preshared_key = None,
        latest_handshake = None, transfer_rx = None, transfer_tx = None \<rparr>]"
    by (simp add: List.map_filter_def demo_block_records)
  note t = add_peer_appends_block [OF n a r f, where pk = "''KEY3''" and d = "''2026-01-29''"
      and ep = None and psk = "Some ''PSK''" and pre = ?pre and bs = ?bs]
  have 1: "add_peer (Some one_peer) ''phone'' ''KEY3'' ''10.8.0.7'' ''2026-01-29'' None (Some ''PSK'')
     = (Inr (), Some (rstrip (universal_newlines one_peer) @ [NL] @ ?g @ [NL]))"
    using t by (rule conjunct1)
  have 2: "snd (add_peer (Some one_peer) ''phone'' ''KEY3'' ''10.8.0.7'' ''2026-01-29'' None (Some ''PSK''))
        = Some (one_peer @ ?g @ [NL])
     \<and> parse_peers (Some one_peer) None = Inr (List.map_filter block_record ?bs)
     \<and> parse_peers (snd (add_peer (Some one_peer) ''phone'' ''KEY3'' ''10.8.0.7'' ''2026-01-29''
          None (Some ''PSK''))) None
        = Inr (List.map_filter block_record ?bs
            @ [peer_record ''phone'' ''KEY3'' ''10.8.0.7'' ''2026-01-29'' None (Some ''PSK'')])"
    using t [THEN conjunct2] one_peer_facts(1,2,4,5) d v by blast
  have 3: "add_peer (Some one_peer) ''phone'' ''KEY3'' ''10.8.0.7'' ''2026-01-29'' None (Some ''PSK'')
     = (Inr (), Some (one_peer @ ?g @ [NL]))"
    using 1 2 by (metis snd_conv)
  show ?thesis using 2 unfolding 3 rec by (simp add: peer_record_def)
qed

lemma parse_no_blocks: "parse_text blank_end = []" "parse_text ''[Interface]\<newline>'' = []"
  by (code_simp, code_simp)

lemma parse_untrimmed_name:
  "parse_text (NL # generate_peer_block ''laptop '' ''KEY1'' ''10.8.0.5'' ''2026-01-27'' None None
       @ [NL]) =
     [\<lparr> name = ''laptop'', public_key = ''KEY1'', allowed_ips = ''10.8.0.5/32'',
        added_at = ''2026-01-27'', endpoint = None, preshared_key = None,
        latest_handshake = None, transfer_rx = None, transfer_tx = None \<rparr>]"
  by code_simp

text \<open>
  The claim as stated preserves the prior content byte for byte and lists the new record with
  the supplied fields. Empty lines at the end of the file are cut back before the block is
  appended; the line ends of a file written on another system are rewritten; a name that ends
  with a space is listed without it.
\<close>

theorem add_peer_prior_content_counterexample:
  "add_peer (Some blank_end) ''laptop'' ''KEY1'' ''10.8.0.5'' ''2026-01-27'' None None
     = (Inr (), Some (''[Interface]'' @ [NL]
          @ generate_peer_block ''laptop'' ''KEY1'' ''10.8.0.5'' ''2026-01-27'' None None @ [NL]))
   \<and> \<not> prefix blank_end (''[Interface]'' @ [NL]
          @ generate_peer_block ''laptop'' ''KEY1'' ''10.8.0.5'' ''2026-01-27'' None None @ [NL])
   \<and> add_peer (Some crlf_file) ''laptop'' ''KEY1'' ''10.8.0.5'' ''2026-01-27'' None None
     = (Inr (), Some (''[Interface]'' @ [NL]
          @ generate_peer_block ''laptop'' ''KEY1'' ''10.8.0.5'' ''2026-01-27'' None None @ [NL]))
   \<and> \<not> prefix crlf_file (''[Interface]'' @ [NL]
          @ generate_peer_block ''laptop'' ''KEY1'' ''10.8.0.5'' ''2026-01-27'' None None @ [NL])
   \<and> add_peer (Some []) ''laptop '' ''KEY1'' ''10.8.0.5'' ''2026-01-27'' None None
     = (Inr (), Some (NL
          # generate_peer_block ''laptop '' ''KEY1'' ''10.8.0.5'' ''2026-01-27'' None None @ [NL]))
   \<and> parse_peers (Some (NL
          # generate_peer_block ''laptop '' ''KEY1'' ''10.8.0.5'' ''2026-01-27'' None None @ [NL]))
        None =
       Inr [\<lparr> name = ''laptop'', public_key = ''KEY1'', allowed_ips = ''10.8.0.5/32'',
              added_at = ''2026-01-27'', endpoint = None, preshared_key = None,
              latest_handshake = None, transfer_rx = None, transfer_tx = None \<rparr>]"
proof -
  let ?g = "generate_peer_block ''laptop'' ''KEY1'' ''10.8.0.5'' ''2026-01-27'' None None"
  let ?h = "generate_peer_block ''laptop '' ''KEY1'' ''10.8.0.5'' ''2026-01-27'' None None"
  have u: "universal_newlines blank_end = blank_end"
    "universal_newlines crlf_file = ''[Interface]\<newline>''" "universal_newlines [] = []"
    by (simp_all add: blank_end_def crlf_file_def)
  have s: "rstrip blank_end = ''[Interface]''" "rstrip ''[Interface]\<newline>'' = ''[Interface]''"
    "rstrip [] = []"
    by (simp_all add: blank_end_def rstrip_def isspace_def)
  have a: "IPv4Address (host_part ''10.8.0.5'') = Inr (ip4 10 8 0 5)"
    by (simp add: host_part_def IPv4Address_examples)
  have r: "ip4 10 8 0 5 \<noteq> SERVER_IP" by (simp add: SERVER_IP_def ip4_last_inj)
  have 1: "add_peer (Some blank_end) ''laptop'' ''KEY1'' ''10.8.0.5'' ''2026-01-27'' None None
     = (Inr (), Some (''[Interface]'' @ [NL] @ ?g @ [NL]))"
    using add_peer_success [where raw = blank_end and nm = "''laptop''" and ip = "''10.8.0.5''"
        and a = "ip4 10 8 0 5" and pk = "''KEY1''" and d = "''2026-01-27''" and ep = None
        and psk = None] a r
    by (simp add: u s parse_no_blocks)
  have 2: "add_peer (Some crlf_file) ''laptop'' ''KEY1'' ''10.8.0.5'' ''2026-01-27'' None None
     = (Inr (), Some (''[Interface]'' @ [NL] @ ?g @ [NL]))"
    using add_peer_success [where raw = crlf_file and nm = "''laptop''" and ip = "''10.8.0.5''"
        and a = "ip4 10 8 0 5" and pk = "''KEY1''" and d = "''2026-01-27''" and ep = None
        and psk = None] a r
    by (simp add: u s parse_no_blocks)
  have 3: "add_peer (Some []) ''laptop '' ''KEY1'' ''10.8.0.5'' ''2026-01-27'' None None
     = (Inr (), Some (NL # ?h @ [NL]))"
    using add_peer_success [where raw = "[]" and nm = "''laptop ''" and ip = "''10.8.0.5''"
        and a = "ip4 10 8 0 5" and pk = "''KEY1''" and d = "''2026-01-27''" and ep = None
        and psk = None] a r
    by (simp add: s parse_text_empty)
  have g: "\<exists>t. ?g = NL # CHR ''#'' # t"
    by (simp add: generate_block_text block_text_def BANNER_def)
  then obtain t where t: "?g = NL # CHR ''#'' # t" by blast
  have 4: "\<not> prefix blank_end (''[Interface]'' @ [NL] @ ?g @ [NL])"
    unfolding t by (simp add: blank_end_def)
  have 5: "\<not> prefix crlf_file (''[Interface]'' @ [NL] @ ?g @ [NL])"
    by (simp add: crlf_file_def)
  have "CR \<notin> set ?h" by (rule no_cr_block) (simp_all add: no_cr_def opt_no_cr_def)
  then have "read_config (Some (NL # ?h @ [NL])) = Inr (NL # ?h @ [NL])"
    by (intro read_config_id) simp
  then have 6: "parse_peers (Some (NL # ?h @ [NL])) None =
       Inr [\<lparr> name = ''laptop'', public_key = ''KEY1'', allowed_ips = ''10.8.0.5/32'',
              added_at = ''2026-01-27'', endpoint = None, preshared_key = None,
              latest_handshake = None, transfer_rx = None, transfer_tx = None \<rparr>]"
    by (simp add: parse_peers_def parse_untrimmed_name)
  show ?thesis using 1 2 3 4 5 6 by blast
qed

section \<open>The pattern of remove\_peer\<close>

lemma remove_pattern_split:
  "match_here (remove_pattern nm) q t = m (Opt (Ch NL)) (m (remove_core nm) Some) (q, t, [])"
  by (simp only: match_here_def remove_pattern_def remove_core_def seqs.simps m_Seq)

lemma core_unfold:
  "m (remove_core nm) k =
     m (Lit ''# '') (m (Plus (Ch (CHR ''=''))) (m (Lit (NL # ''# ClientName: ''))
       (m (Lit nm) (m (Lit (NL # ''# AddedAt: ''))
       (m (LazyPlus AnyChar) (m (Lit (NL # ''# '')) (m (Plus (Ch (CHR ''='')))
       (m (Lit (NL # ''[Peer]'' @ [NL])) (m (LazyStar AnyChar)
       (m lookahead k))))))))))"
  by (simp only: remove_core_def seqs.simps m_Seq lookahead_def)

lemma core_needs_banner: "\<not> prefix ''# ='' t \<Longrightarrow> m (remove_core nm) k (q, t, c) = None"
proof -
  assume n: "\<not> prefix ''# ='' t"
  let ?k = "m (Plus (Ch (CHR ''=''))) (m (Lit (NL # ''# ClientName: ''))
       (m (Lit nm) (m (Lit (NL # ''# AddedAt: ''))
       (m (LazyPlus AnyChar) (m (Lit (NL # ''# '')) (m (Plus (Ch (CHR ''='')))
       (m (Lit (NL # ''[Peer]'' @ [NL])) (m (LazyStar AnyChar)
       (m lookahead k)))))))))"
  have "m (Lit ''# '') ?k (q, t, c) = None"
  proof (cases "prefix ''# '' t")
    case True
    then obtain t' where t: "t = ''# '' @ t'" by (auto simp add: prefix_def)
    then have "\<not> prefix [CHR ''=''] t'" using n by (auto simp add: prefix_def)
    then have "?k (Some (CHR '' ''), t', c) = None" by (rule plus_fail)
    then show ?thesis unfolding t by simp
  next
    case False
    then show ?thesis by simp
  qed
  then show ?thesis unfolding core_unfold by simp
qed

lemma remove_needs_banner:
  assumes "\<not> prefix ''# ='' t" "\<not> prefix (NL # ''# ='') t"
  shows "match_here (remove_pattern nm) q t = None"
proof -
  let ?K = "m (remove_core nm) Some"
  have 1: "?K (q, t, []) = None" using assms(1) by (rule core_needs_banner)
  have 2: "one (Ch NL) ?K (q, t, []) = None"
  proof (cases t)
    case Nil
    then show ?thesis by simp
  next
    case (Cons x t')
    show ?thesis
    proof (cases "x = NL")
      case True
      then have "\<not> prefix ''# ='' t'" using assms(2) Cons by simp
      then have "?K (Some NL, t', []) = None" by (rule core_needs_banner)
      then show ?thesis using Cons True by simp
    next
      case False
      then show ?thesis using Cons by simp
    qed
  qed
  show ?thesis unfolding remove_pattern_split using 1 2 by simp
qed

lemma lit_chain_fail: "\<not> prefix (a @ b) t \<Longrightarrow> m (Lit a) (m (Lit b) k) (q, t, c) = None"
proof (cases "prefix a t")
  case True
  assume n: "\<not> prefix (a @ b) t"
  from True obtain t' where t: "t = a @ t'" by (auto simp add: prefix_def)
  then have "\<not> prefix b t'" using n by simp
  then show ?thesis unfolding t by simp
next
  case False
  then show ?thesis by simp
qed

lemma lit_chain3_fail:
  assumes "\<not> prefix (a @ b @ e) t"
  shows "m (Lit a) (m (Lit b) (m (Lit e) k)) (q, t, c) = None"
proof (cases "prefix a t")
  case True
  then obtain t' where t: "t = a @ t'" by (auto simp add: prefix_def)
  then have "\<not> prefix (b @ e) t'" using assms by simp
  then have "m (Lit b) (m (Lit e) k) (q', t', c) = None" for q' by (rule lit_chain_fail)
  then show ?thesis unfolding t by simp
next
  case False
  then show ?thesis by simp
qed

lemma core_banner:
  assumes "\<not> prefix ((NL # ''# ClientName: '') @ nm @ (NL # ''# AddedAt: '')) r"
    and "\<not> prefix [CHR ''=''] r"
  shows "m (remove_core nm) k (q, ''# '' @ replicate (Suc j) (CHR ''='') @ r, c) = None"
proof -
  let ?k6 = "m (LazyPlus AnyChar) (m (Lit (NL # ''# '')) (m (Plus (Ch (CHR ''='')))
       (m (Lit (NL # ''[Peer]'' @ [NL])) (m (LazyStar AnyChar) (m lookahead k)))))"
  let ?k3 = "m (Lit (NL # ''# ClientName: '')) (m (Lit nm) (m (Lit (NL # ''# AddedAt: '')) ?k6))"
  have f: "\<And>q t c. ?k3 (q, CHR ''='' # t, c) = None" by simp
  obtain q' where "m (Plus (Ch (CHR ''=''))) ?k3 (Some (CHR '' ''), replicate (Suc j) (CHR ''='') @ r, c)
      = ?k3 (q', r, c)"
    using plus_run [where k = ?k3 and e = "CHR ''=''" and s = r and j = j and c = c
        and q = "Some (CHR '' '')"] f assms(2) by blast
  moreover have "?k3 (q', r, c) = None" using assms(1) by (rule lit_chain3_fail)
  ultimately have "m (Plus (Ch (CHR ''=''))) ?k3 (Some (CHR '' ''), replicate (Suc j) (CHR ''='') @ r, c)
      = None" by simp
  then show ?thesis unfolding core_unfold by simp
qed

lemma banner_miss:
  assumes "\<not> prefix ((NL # ''# ClientName: '') @ nm @ (NL # ''# AddedAt: '')) r"
    and "prefix [NL] r"
  shows "match_here (remove_pattern nm) q (''# '' @ replicate (Suc j) (CHR ''='') @ r) = None"
    and "match_here (remove_pattern nm) q (NL # ''# '' @ replicate (Suc j) (CHR ''='') @ r) = None"
proof -
  let ?K = "m (remove_core nm) Some"
  let ?t = "''# '' @ replicate (Suc j) (CHR ''='') @ r"
  have e: "\<not> prefix [CHR ''=''] r" using assms(2) by (auto simp add: prefix_def)
  have c: "?K (q', ?t, []) = None" for q' using assms(1) e by (rule core_banner)
  have "one (Ch NL) ?K (q, ?t, []) = None" by simp
  then show "match_here (remove_pattern nm) q ?t = None"
    unfolding remove_pattern_split using c by simp
  have "?K (q, NL # ?t, []) = None" by (rule core_needs_banner) simp
  moreover have "one (Ch NL) ?K (q, NL # ?t, []) = None" using c by simp
  ultimately show "match_here (remove_pattern nm) q (NL # ?t) = None"
    unfolding remove_pattern_split by simp
qed

lemma takeWhile_line: "NL \<notin> set n \<Longrightarrow> takeWhile (\<lambda>c. c \<noteq> NL) (n @ NL # w) = n"
  by (induction n) auto

lemma name_mismatch:
  assumes "NL \<notin> set nm" "NL \<notin> set n" "nm \<noteq> n"
  shows "\<not> prefix (nm @ NL # w) (n @ NL # w')"
proof
  assume "prefix (nm @ NL # w) (n @ NL # w')"
  then obtain z where z: "n @ NL # w' = (nm @ NL # w) @ z" by (auto simp add: prefix_def)
  have "takeWhile (\<lambda>c. c \<noteq> NL) (n @ NL # w') = n"
    using assms(2) by (rule takeWhile_line)
  moreover have "takeWhile (\<lambda>c. c \<noteq> NL) (nm @ NL # (w @ z)) = nm"
    using assms(1) by (rule takeWhile_line)
  ultimately show False using z assms(3) by simp
qed

section \<open>Stretches where the pattern matches nowhere\<close>

lemma dead_Nil: "dead r [] s"
  by (simp add: dead_def)

lemma dead_Cons: "dead r (x # u) s = ((\<forall>q. match_here r q (x # u @ s) = None) \<and> dead r u s)"
proof
  assume a: "dead r (x # u) s"
  have 1: "\<forall>q. match_here r q (x # u @ s) = None"
    using a [unfolded dead_def, rule_format, of "[]" "x # u"] by simp
  have 2: "dead r u s"
    unfolding dead_def
  proof (intro allI impI)
    fix u1 u2 q assume "u = u1 @ u2 \<and> u2 \<noteq> []"
    then show "match_here r q (u2 @ s) = None"
      using a [unfolded dead_def, rule_format, of "x # u1" u2 q] by simp
  qed
  show "(\<forall>q. match_here r q (x # u @ s) = None) \<and> dead r u s" using 1 2 by simp
next
  assume a: "(\<forall>q. match_here r q (x # u @ s) = None) \<and> dead r u s"
  show "dead r (x # u) s"
    unfolding dead_def
  proof (intro allI impI)
    fix u1 u2 q assume b: "x # u = u1 @ u2 \<and> u2 \<noteq> []"
    show "match_here r q (u2 @ s) = None"
    proof (cases u1)
      case Nil
      then show ?thesis using a b by auto
    next
      case (Cons y u1')
      then have "u = u1' @ u2" using b by simp
      then show ?thesis using a b unfolding dead_def by blast
    qed
  qed
qed

lemma dead_append: "dead r (u @ v) s = (dead r u (v @ s) \<and> dead r v s)"
  by (induction u) (auto simp add: dead_Nil dead_Cons)

lemma dead_quiet:
  assumes "quiet ''# ='' u s" "quiet (NL # ''# ='') u s"
  shows "dead (remove_pattern nm) u s"
  unfolding dead_def
proof (intro allI impI)
  fix u1 u2 q assume a: "u = u1 @ u2 \<and> u2 \<noteq> []"
  then have "\<not> prefix ''# ='' (u2 @ s)" "\<not> prefix (NL # ''# ='') (u2 @ s)"
    using assms unfolding quiet_def by blast+
  then show "match_here (remove_pattern nm) q (u2 @ s) = None" by (rule remove_needs_banner)
qed

lemma quiet_first: "w \<noteq> [] \<Longrightarrow> hd w \<notin> set u \<Longrightarrow> quiet w u s"
  unfolding quiet_def
proof (intro allI impI notI)
  fix u1 u2 assume w: "w \<noteq> []" "hd w \<notin> set u" and a: "u = u1 @ u2 \<and> u2 \<noteq> []"
    and p: "prefix w (u2 @ s)"
  obtain x v where u2: "u2 = x # v" using a by (cases u2) auto
  have "hd w = x" using p w(1) unfolding u2 by (cases w) auto
  then show False using w(2) a u2 by simp
qed

lemma dead_banner:
  assumes "\<not> prefix ((NL # ''# ClientName: '') @ nm @ (NL # ''# AddedAt: '')) r"
    and "prefix [NL] r"
  shows "dead (remove_pattern nm) (NL # ''# '' @ replicate (Suc j) (CHR ''='')) r"
proof -
  let ?e = "replicate (Suc j) (CHR ''='')"
  have 1: "\<forall>q. match_here (remove_pattern nm) q (NL # (''# '' @ ?e) @ r) = None"
    using banner_miss(2) [OF assms] by simp
  have 2: "\<forall>q. match_here (remove_pattern nm) q (CHR ''#'' # (CHR '' '' # ?e) @ r) = None"
    using banner_miss(1) [OF assms] by simp
  have "quiet ''# ='' (CHR '' '' # ?e) r" "quiet (NL # ''# ='') (CHR '' '' # ?e) r"
    by (rule quiet_first; simp)+
  then have 3: "dead (remove_pattern nm) (CHR '' '' # ?e) r" by (rule dead_quiet)
  have "dead (remove_pattern nm) (CHR ''#'' # CHR '' '' # ?e) r"
    using 2 3 by (subst dead_Cons) simp
  then have "dead (remove_pattern nm) (NL # CHR ''#'' # CHR '' '' # ?e) r"
    using 1 by (subst dead_Cons) simp
  then show ?thesis by simp
qed

lemma dead_block:
  assumes "line n" "plain n" "line d" "plain d" "plain body" "NL \<notin> set nm" "nm \<noteq> n"
    and "s = [] \<or> prefix [NL] s"
  shows "dead (remove_pattern nm) (block_text n d body) s"
proof -
  let ?e = "replicate (Suc 41) (CHR ''='')"
  let ?B = "NL # ''# '' @ ?e"
  let ?M = "(NL # ''# ClientName: '') @ n @ (NL # ''# AddedAt: '') @ d"
  let ?R = "(NL # ''[Peer]'' @ [NL]) @ body"
  have t: "block_text n d body = ?B @ ?M @ ?B @ ?R"
    using block_text_tail [of n d body "[]"] by simp
  have nn: "NL \<notin> set n" using assms(1) by (simp add: line_def)
  have qn: "quiet ''# ='' n r" "quiet (NL # ''# ='') n r" if "r = [] \<or> prefix [NL] r" for r
    using assms(2) that by (rule plain_quiet)+
  have qd: "quiet ''# ='' d r" "quiet (NL # ''# ='') d r" if "r = [] \<or> prefix [NL] r" for r
    using assms(4) that by (rule plain_quiet)+
  have qb: "quiet ''# ='' body s" "quiet (NL # ''# ='') body s"
    using assms(5,8) by (rule plain_quiet)+
  have m1: "\<not> prefix ((NL # ''# ClientName: '') @ nm @ (NL # ''# AddedAt: '')) (?M @ ?B @ ?R @ s)"
    using name_mismatch [OF assms(6) nn assms(7)] by simp
  have 1: "dead (remove_pattern nm) ?B (?M @ ?B @ ?R @ s)"
    using m1 by (rule dead_banner) simp
  have "quiet ''# ='' ?M (?B @ ?R @ s)" "quiet (NL # ''# ='') ?M (?B @ ?R @ s)"
    by (simp_all add: quiet_simps qn qd)
  then have 2: "dead (remove_pattern nm) ?M (?B @ ?R @ s)" by (rule dead_quiet)
  have 3: "dead (remove_pattern nm) ?B (?R @ s)"
    by (rule dead_banner) simp_all
  have nb: "\<not> prefix ''# ='' (body @ s)"
  proof (cases body)
    case Nil
    then show ?thesis using assms(8) by (auto simp add: prefix_def)
  next
    case (Cons x v)
    then show ?thesis using qb(1) [unfolded quiet_def, rule_format, of "[]" body] by simp
  qed
  have "quiet ''# ='' ?R s" "quiet (NL # ''# ='') ?R s"
    using qb nb by (simp_all add: quiet_simps)
  then have 4: "dead (remove_pattern nm) ?R s" by (rule dead_quiet)
  have "dead (remove_pattern nm) (?B @ ?M @ ?B @ ?R) s"
    using 1 2 3 4 by (simp only: dead_append append_assoc)
  then show ?thesis unfolding t .
qed


section \<open>Removing the blocks of a name\<close>

lemma hit_block:
  assumes "line n" "line d" "quiet (NL # ''# ='') body s" "s = [] \<or> prefix (NL # ''# ='') s"
  shows "\<exists>p'. match_here (remove_pattern n) q (block_text n d body @ s) = Some (p', s, [])"
proof -
  let ?k11 = "m lookahead Some"
  let ?k10 = "m (LazyStar AnyChar) ?k11"
  let ?k9 = "m (Lit (NL # ''[Peer]'' @ [NL])) ?k10"
  let ?k8 = "m (Plus (Ch (CHR ''=''))) ?k9"
  let ?k7 = "m (Lit (NL # ''# '')) ?k8"
  let ?k6 = "m (LazyPlus AnyChar) ?k7"
  let ?k5 = "m (Lit (NL # ''# AddedAt: '')) ?k6"
  let ?k4 = "m (Lit n) ?k5"
  let ?k3 = "m (Lit (NL # ''# ClientName: '')) ?k4"
  let ?k2 = "m (Plus (Ch (CHR ''=''))) ?k3"
  let ?k1 = "m (Lit ''# '') ?k2"
  let ?e = "replicate (Suc 41) (CHR ''='')"
  let ?t9 = "(NL # ''[Peer]'' @ [NL]) @ body @ s"
  let ?t7 = "(NL # ''# '') @ ?e @ ?t9"
  let ?t5 = "(NL # ''# AddedAt: '') @ d @ ?t7"
  let ?t3 = "(NL # ''# ClientName: '') @ n @ ?t5"
  have a10: "accepts ?k10 (body @ s) s []" using assms(3,4) by (rule accepts_body)
  have a9: "accepts ?k9 ?t9 s []" using a10 by (rule accepts_Lit)
  have "accepts ?k8 (?e @ NL # (''[Peer]'' @ [NL]) @ body @ s) s []"
    using a9 by (intro accepts_banner_run) simp
  then have a8: "accepts ?k8 (?e @ ?t9) s []" by simp
  have a7: "accepts ?k7 ?t7 s []" using a8 by (rule accepts_Lit)
  have a6: "accepts ?k6 (d @ ?t7) s []" using assms(2) nl_only_Lit a7 by (rule accepts_lazy_line)
  have a5: "accepts ?k5 ?t5 s []" using a6 by (rule accepts_Lit)
  have a4: "accepts ?k4 (n @ ?t5) s []" using a5 by (rule accepts_Lit)
  have a3: "accepts ?k3 ?t3 s []" using a4 by (rule accepts_Lit)
  have "accepts ?k2 (?e @ NL # ''# ClientName: '' @ n @ ?t5) s []"
    using a3 by (intro accepts_banner_run) simp
  then have a2: "accepts ?k2 (?e @ ?t3) s []" by simp
  have a1: "accepts ?k1 (''# '' @ ?e @ ?t3) s []" using a2 by (rule accepts_Lit)
  have t: "block_text n d body @ s = NL # ''# '' @ ?e @ ?t3"
    unfolding block_text_tail by simp
  obtain p' where "?k1 (Some NL, ''# '' @ ?e @ ?t3, []) = Some (p', s, [])"
    using a1 unfolding accepts_def by fastforce
  then have "m (remove_core n) Some (Some NL, ''# '' @ ?e @ ?t3, []) = Some (p', s, [])"
    unfolding core_unfold .
  then have "m (Opt (Ch NL)) (m (remove_core n) Some) (q, NL # ''# '' @ ?e @ ?t3, [])
      = Some (p', s, [])" by simp
  then show ?thesis unfolding remove_pattern_split t by blast
qed

lemma subn_miss:
  "match_here r q (x # t) = None \<Longrightarrow>
   subn_from r q (x # t) = (case subn_from r (Some x) t of (t', n) \<Rightarrow> (x # t', n))"
  by (subst subn_from.simps) simp

lemma subn_end: "match_here r q [] = None \<Longrightarrow> subn_from r q [] = ([], 0)"
  by (subst subn_from.simps) simp

lemma subn_hit:
  assumes "match_here r q t = Some (p', s, cs)" "length s < length t"
  shows "subn_from r q t = (case subn_from r p' s of (t', n) \<Rightarrow> (t', Suc n))"
  using assms by (subst subn_from.simps) simp

lemma subn_skip:
  assumes "dead r u s"
  shows "\<exists>q'. subn_from r q (u @ s) = (case subn_from r q' s of (t', n) \<Rightarrow> (u @ t', n))"
  using assms
proof (induction u arbitrary: q)
  case Nil
  have "subn_from r q ([] @ s) = (case subn_from r q s of (t', n) \<Rightarrow> ([] @ t', n))"
    by (simp split: prod.splits)
  then show ?case by blast
next
  case (Cons x u)
  have d: "match_here r q (x # u @ s) = None" "dead r u s"
    using Cons.prems unfolding dead_Cons by simp_all
  have a: "subn_from r q ((x # u) @ s)
      = (case subn_from r (Some x) (u @ s) of (t', n) \<Rightarrow> (x # t', n))"
    using d(1) by (simp add: subn_miss)
  obtain q' where "subn_from r (Some x) (u @ s)
      = (case subn_from r q' s of (t', n) \<Rightarrow> (u @ t', n))"
    using Cons.IH [OF d(2)] by blast
  then have "subn_from r q ((x # u) @ s)
      = (case subn_from r q' s of (t', n) \<Rightarrow> ((x # u) @ t', n))"
    using a by (simp split: prod.splits)
  then show ?case by blast
qed

lemma rm_block_facts:
  assumes "rm_block (n, d, body)"
  shows "line n" "plain n" "line d" "plain d" "plain body" "clean n" "wf_block (n, d, body)"
  using assms by (simp_all add: rm_block_def clean_def wf_block_def plain_unbroken)

lemma subn_blocks:
  assumes "\<forall>b\<in>set bs. rm_block b" "NL \<notin> set nm"
  shows "subn_from (remove_pattern nm) q (blocks_text bs)
     = (blocks_text (filter (\<lambda>b. fst b \<noteq> nm) bs), length (filter (\<lambda>b. fst b = nm) bs))"
  using assms(1)
proof (induction bs arbitrary: q)
  case Nil
  have "match_here (remove_pattern nm) q [] = None" by (rule remove_needs_banner) simp_all
  then show ?case by (simp add: blocks_text_def subn_end)
next
  case (Cons b bs)
  obtain n d body where b: "b = (n, d, body)" by (cases b) auto
  have rb: "rm_block (n, d, body)" using Cons.prems b by simp
  note f = rm_block_facts [OF rb]
  let ?s = "blocks_text bs"
  have ih: "subn_from (remove_pattern nm) q' ?s
     = (blocks_text (filter (\<lambda>b. fst b \<noteq> nm) bs), length (filter (\<lambda>b. fst b = nm) bs))" for q'
    using Cons.prems by (intro Cons.IH) simp
  show ?case
  proof (cases "n = nm")
    case True
    have qu: "quiet (NL # ''# ='') body ?s"
      using f(5) blocks_text_start_nl by (rule plain_quiet)
    obtain p' where mt: "match_here (remove_pattern n) q (block_text n d body @ ?s) = Some (p', ?s, [])"
      using hit_block [OF f(1,3) qu blocks_text_start] by blast
    have "length ?s < length (block_text n d body @ ?s)" by (simp add: block_text_def)
    with mt have "subn_from (remove_pattern n) q (block_text n d body @ ?s)
        = (case subn_from (remove_pattern n) p' ?s of (t', k) \<Rightarrow> (t', Suc k))"
      by (rule subn_hit)
    then show ?thesis using True ih by (simp add: b blocks_text_Cons)
  next
    case False
    then have ne: "nm \<noteq> n" by simp
    have "dead (remove_pattern nm) (block_text n d body) ?s"
      using f(1,2,3,4,5) assms(2) ne blocks_text_start_nl by (rule dead_block)
    then obtain q' where "subn_from (remove_pattern nm) q (block_text n d body @ ?s)
        = (case subn_from (remove_pattern nm) q' ?s of (t', k) \<Rightarrow> (block_text n d body @ t', k))"
      using subn_skip by blast
    then show ?thesis using False ih by (simp add: b blocks_text_Cons)
  qed
qed

lemma subn_document:
  assumes "plain pre" "\<forall>b\<in>set bs. rm_block b" "NL \<notin> set nm"
  shows "subn_empty (remove_pattern nm) (pre @ blocks_text bs)
     = (pre @ blocks_text (filter (\<lambda>b. fst b \<noteq> nm) bs), length (filter (\<lambda>b. fst b = nm) bs))"
proof -
  have "quiet ''# ='' pre (blocks_text bs)" "quiet (NL # ''# ='') pre (blocks_text bs)"
    using assms(1) blocks_text_start_nl by (rule plain_quiet)+
  then have "dead (remove_pattern nm) pre (blocks_text bs)" by (rule dead_quiet)
  then obtain q' where "subn_from (remove_pattern nm) None (pre @ blocks_text bs)
      = (case subn_from (remove_pattern nm) q' (blocks_text bs) of (t', k) \<Rightarrow> (pre @ t', k))"
    using subn_skip by blast
  then show ?thesis
    using subn_blocks [OF assms(2,3)] by (simp add: subn_empty_def)
qed

lemma filter_same: "(\<forall>b\<in>set bs. fst b \<noteq> nm) \<Longrightarrow> filter (\<lambda>b. fst b \<noteq> nm) bs = bs"
  by (induction bs) auto

lemma remove_peer_document:
  assumes "no_cr (pre @ blocks_text bs)" "plain pre" "\<forall>b\<in>set bs. rm_block b" "NL \<notin> set nm"
  shows "remove_peer (Some (pre @ blocks_text bs)) nm =
     (if \<exists>b\<in>set bs. fst b = nm
      then (Inr True, Some (pre @ blocks_text (filter (\<lambda>b. fst b \<noteq> nm) bs)))
      else (Inr False, Some (pre @ blocks_text bs)))"
proof -
  have "CR \<notin> set (pre @ blocks_text bs)" using assms(1) by (simp add: no_cr_def)
  then have r: "read_config (Some (pre @ blocks_text bs)) = Inr (pre @ blocks_text bs)"
    by (rule read_config_id)
  have c: "(length (filter (\<lambda>b. fst b = nm) bs) = 0) = (\<not> (\<exists>b\<in>set bs. fst b = nm))"
    by (simp add: filter_empty_conv)
  note sd = subn_document [OF assms(2,3,4)]
  show ?thesis
  proof (cases "\<exists>b\<in>set bs. fst b = nm")
    case True
    then have "length (filter (\<lambda>b. fst b = nm) bs) \<noteq> 0" using c by simp
    then show ?thesis using True by (simp add: remove_peer_def r sd write_config_def)
  next
    case False
    then have "length (filter (\<lambda>b. fst b = nm) bs) = 0" using c by simp
    then show ?thesis using False by (simp add: remove_peer_def r sd)
  qed
qed

lemma block_record_name:
  assumes "rm_block b" "block_record b = Some p"
  shows "name p = fst b"
proof -
  obtain n d body where b: "b = (n, d, body)" by (cases b) auto
  have "name p = strip (group [(3, body), (2, d), (1, n)] 1)"
    using assms(2) peer_of_match_header [of "[(3, body), (2, d), (1, n)]" p]
    by (simp add: b block_record_def)
  moreover have "strip n = n" using assms(1) by (simp add: b rm_block_def strip_clean)
  ultimately show ?thesis by (simp add: b group_def)
qed

lemma records_filter:
  assumes "\<forall>b\<in>set bs. rm_block b"
  shows "List.map_filter block_record (filter (\<lambda>b. fst b \<noteq> nm) bs)
     = filter (\<lambda>p. name p \<noteq> nm) (List.map_filter block_record bs)"
  using assms
proof (induction bs)
  case Nil
  show ?case by (simp add: List.map_filter_def)
next
  case (Cons b bs)
  have ih: "List.map_filter block_record (filter (\<lambda>b. fst b \<noteq> nm) bs)
     = filter (\<lambda>p. name p \<noteq> nm) (List.map_filter block_record bs)"
    using Cons.prems by (intro Cons.IH) simp
  have rb: "rm_block b" using Cons.prems by simp
  show ?case
  proof (cases "block_record b")
    case None
    then show ?thesis using ih by simp
  next
    case (Some p)
    have "name p = fst b" using rb Some by (rule block_record_name)
    then show ?thesis using ih Some by simp
  qed
qed

lemma records_names:
  assumes "\<forall>b\<in>set bs. rm_block b" "p \<in> set (List.map_filter block_record bs)"
  shows "\<exists>b\<in>set bs. fst b = name p"
proof -
  obtain b where b: "b \<in> set bs" "block_record b = Some p"
    using assms(2) by (auto simp add: List.map_filter_def)
  have "rm_block b" using assms(1) b(1) by simp
  then have "name p = fst b" using b(2) by (rule block_record_name)
  then show ?thesis using b(1) by auto
qed

lemma blocks_text_filter_set: "set (blocks_text (filter P bs)) \<subseteq> set (blocks_text bs)"
  by (induction bs) (auto simp add: blocks_text_def)

lemma parse_peers_document:
  assumes "no_cr (pre @ blocks_text bs)" "plain pre" "\<forall>b\<in>set bs. rm_block b"
  shows "parse_peers (Some (pre @ blocks_text bs)) None = Inr (List.map_filter block_record bs)"
proof -
  have "CR \<notin> set (pre @ blocks_text bs)" using assms(1) by (simp add: no_cr_def)
  then have r: "read_config (Some (pre @ blocks_text bs)) = Inr (pre @ blocks_text bs)"
    by (rule read_config_id)
  have wf: "\<forall>b\<in>set bs. wf_block b"
    using assms(3) by (auto simp add: rm_block_def wf_block_def clean_def plain_unbroken)
  show ?thesis by (simp add: parse_peers_def r parse_document [OF assms(2) wf])
qed

section \<open>What a match of the pattern contains\<close>

lemma greedy_Some_run:
  "greedy (Ch e) k (q, t, c) = Some r \<Longrightarrow> \<exists>j s q'. t = replicate j e @ s \<and> k (q', s, c) = Some r"
proof (induction t arbitrary: q)
  case Nil
  then have "[] = replicate 0 e @ [] \<and> k (q, [], c) = Some r" by simp
  then show ?case by blast
next
  case (Cons x xs)
  show ?case
  proof (cases "x = e \<and> greedy (Ch e) k (Some x, xs, c) \<noteq> None")
    case True
    then obtain r' where g: "greedy (Ch e) k (Some x, xs, c) = Some r'" by auto
    then have "r' = r" using Cons.prems True by simp
    then obtain j s q' where "xs = replicate j e @ s" "k (q', s, c) = Some r"
      using Cons.IH [of "Some x"] g by blast
    then have "x # xs = replicate (Suc j) e @ s \<and> k (q', s, c) = Some r" using True by simp
    then show ?thesis by blast
  next
    case False
    then have "k (q, x # xs, c) = Some r" using Cons.prems by (auto split: if_splits option.splits)
    then have "x # xs = replicate 0 e @ (x # xs) \<and> k (q, x # xs, c) = Some r" by simp
    then show ?thesis by blast
  qed
qed

lemma plus_Some_run:
  assumes "m (Plus (Ch e)) k (q, t, c) = Some r"
  shows "\<exists>j s q'. t = replicate (Suc j) e @ s \<and> k (q', s, c) = Some r"
proof (cases t)
  case Nil
  then show ?thesis using assms by simp
next
  case (Cons x xs)
  then have x: "x = e" and g: "greedy (Ch e) k (Some x, xs, c) = Some r"
    using assms by (auto split: if_splits)
  obtain j s q' where "xs = replicate j e @ s" "k (q', s, c) = Some r"
    using greedy_Some_run [OF g] by blast
  then have "t = replicate (Suc j) e @ s \<and> k (q', s, c) = Some r" using Cons x by simp
  then show ?thesis by blast
qed

lemma lit_Some:
  "m (Lit w) k (q, t, c) = Some r \<Longrightarrow> \<exists>s q'. t = w @ s \<and> k (q', s, c) = Some r"
  by (auto simp add: prefix_def split: if_splits)

lemma core_Some:
  assumes "m (remove_core nm) k (q, t, c) = Some r"
  shows "sublist (CHR ''='' # NL # ''# ClientName: '' @ nm @ NL # ''# AddedAt: '') t"
proof -
  let ?k6 = "m (LazyPlus AnyChar) (m (Lit (NL # ''# '')) (m (Plus (Ch (CHR ''='')))
       (m (Lit (NL # ''[Peer]'' @ [NL])) (m (LazyStar AnyChar) (m lookahead k)))))"
  let ?k5 = "m (Lit (NL # ''# AddedAt: '')) ?k6"
  let ?k4 = "m (Lit nm) ?k5"
  let ?k3 = "m (Lit (NL # ''# ClientName: '')) ?k4"
  let ?k2 = "m (Plus (Ch (CHR ''=''))) ?k3"
  have "m (Lit ''# '') ?k2 (q, t, c) = Some r" using assms unfolding core_unfold .
  then obtain s1 q1 where 1: "t = ''# '' @ s1" "?k2 (q1, s1, c) = Some r"
    using lit_Some by blast
  obtain j s2 q2 where 2: "s1 = replicate (Suc j) (CHR ''='') @ s2" "?k3 (q2, s2, c) = Some r"
    using plus_Some_run [OF 1(2)] by blast
  obtain s3 q3 where 3: "s2 = (NL # ''# ClientName: '') @ s3" "?k4 (q3, s3, c) = Some r"
    using lit_Some [OF 2(2)] by blast
  obtain s4 q4 where 4: "s3 = nm @ s4" "?k5 (q4, s4, c) = Some r"
    using lit_Some [OF 3(2)] by blast
  obtain s5 q5 where 5: "s4 = (NL # ''# AddedAt: '') @ s5" "?k6 (q5, s5, c) = Some r"
    using lit_Some [OF 4(2)] by blast
  have "replicate (Suc j) (CHR ''='') = replicate j (CHR ''='') @ [CHR ''='']"
    by (simp add: replicate_append_same)
  then have "t = (''# '' @ replicate j (CHR ''=''))
      @ (CHR ''='' # NL # ''# ClientName: '' @ nm @ NL # ''# AddedAt: '') @ s5"
    using 1(1) 2(1) 3(1) 4(1) 5(1) by simp
  then show ?thesis unfolding sublist_def by blast
qed

lemma match_Some:
  assumes "match_here (remove_pattern nm) q t = Some r"
  shows "sublist (CHR ''='' # NL # ''# ClientName: '' @ nm @ NL # ''# AddedAt: '') t"
proof (cases "one (Ch NL) (m (remove_core nm) Some) (q, t, [])")
  case None
  then have "m (remove_core nm) Some (q, t, []) = Some r"
    using assms unfolding remove_pattern_split by simp
  then show ?thesis by (rule core_Some)
next
  case (Some r')
  then obtain t' where t: "t = NL # t'" and c: "m (remove_core nm) Some (Some NL, t', []) = Some r'"
    by (cases t) (auto split: if_splits)
  have "sublist (CHR ''='' # NL # ''# ClientName: '' @ nm @ NL # ''# AddedAt: '') t'"
    using c by (rule core_Some)
  then show ?thesis unfolding t by (simp add: sublist_Cons_right)
qed

lemma subn_count:
  "snd (subn_from r q t) \<noteq> 0 \<Longrightarrow> \<exists>u1 u2 q' x. t = u1 @ u2 \<and> match_here r q' u2 = Some x"
proof (induction t arbitrary: q)
  case Nil
  have "match_here r q [] \<noteq> None"
  proof
    assume "match_here r q [] = None"
    then have "subn_from r q [] = ([], 0)" by (rule subn_end)
    then show False using Nil by simp
  qed
  then obtain x where "[] = [] @ [] \<and> match_here r q [] = Some x" by auto
  then show ?case by blast
next
  case (Cons y ys)
  show ?case
  proof (cases "match_here r q (y # ys)")
    case None
    then have "snd (subn_from r (Some y) ys) \<noteq> 0"
      using Cons.prems by (simp add: subn_miss split: prod.splits)
    then obtain u1 u2 q' x where "ys = u1 @ u2" "match_here r q' u2 = Some x"
      using Cons.IH by blast
    then have "y # ys = (y # u1) @ u2 \<and> match_here r q' u2 = Some x" by simp
    then show ?thesis by blast
  next
    case (Some x)
    then have "y # ys = [] @ (y # ys) \<and> match_here r q (y # ys) = Some x" by simp
    then show ?thesis by blast
  qed
qed

lemma remove_True:
  assumes "fst (remove_peer (Some raw) nm) = Inr True"
  shows "sublist (CHR ''='' # NL # ''# ClientName: '' @ nm @ NL # ''# AddedAt: '')
     (universal_newlines raw)"
proof -
  let ?c = "universal_newlines raw"
  have "snd (subn_from (remove_pattern nm) None ?c) \<noteq> 0"
    using assms
    by (auto simp add: remove_peer_def read_config_def subn_empty_def split: prod.splits if_splits)
  then obtain u1 u2 q' x where u: "?c = u1 @ u2" "match_here (remove_pattern nm) q' u2 = Some x"
    using subn_count by blast
  have "sublist (CHR ''='' # NL # ''# ClientName: '' @ nm @ NL # ''# AddedAt: '') u2"
    using u(2) by (rule match_Some)
  then obtain ps ss where "u2 = ps @ (CHR ''='' # NL # ''# ClientName: '' @ nm @ NL # ''# AddedAt: '') @ ss"
    unfolding sublist_def by blast
  then have "?c = (u1 @ ps) @ (CHR ''='' # NL # ''# ClientName: '' @ nm @ NL # ''# AddedAt: '') @ ss"
    using u(1) by simp
  then show ?thesis unfolding sublist_def by blast
qed

lemma remove_False:
  "fst (remove_peer (Some raw) nm) = Inr False \<Longrightarrow> snd (remove_peer (Some raw) nm) = Some raw"
  by (auto simp add: remove_peer_def read_config_def split: prod.splits if_splits)

section \<open>Removal in a document of blocks\<close>

lemma remove_peer_blocks:
  assumes "no_cr (pre @ blocks_text bs)" "plain pre" "\<forall>b\<in>set bs. rm_block b" "NL \<notin> set nm"
  shows "((\<exists>b\<in>set bs. fst b = nm) \<longrightarrow>
            remove_peer (Some (pre @ blocks_text bs)) nm
              = (Inr True, Some (pre @ blocks_text (filter (\<lambda>b. fst b \<noteq> nm) bs)))
            \<and> parse_peers (Some (pre @ blocks_text (filter (\<lambda>b. fst b \<noteq> nm) bs))) None
              = Inr (filter (\<lambda>p. name p \<noteq> nm) (List.map_filter block_record bs)))
     \<and> (\<not> (\<exists>b\<in>set bs. fst b = nm) \<longrightarrow>
            remove_peer (Some (pre @ blocks_text bs)) nm = (Inr False, Some (pre @ blocks_text bs)))
     \<and> parse_peers (Some (pre @ blocks_text bs)) None = Inr (List.map_filter block_record bs)
     \<and> (\<forall>p\<in>set (List.map_filter block_record bs). \<exists>b\<in>set bs. fst b = name p)"
proof -
  let ?kept = "filter (\<lambda>b. fst b \<noteq> nm) bs"
  note r = remove_peer_document [OF assms]
  have "set (pre @ blocks_text ?kept) \<subseteq> set (pre @ blocks_text bs)"
    using blocks_text_filter_set [of "\<lambda>b. fst b \<noteq> nm" bs] by auto
  then have n: "no_cr (pre @ blocks_text ?kept)" using assms(1) by (auto simp add: no_cr_def)
  have k: "\<forall>b\<in>set ?kept. rm_block b" using assms(3) by simp
  have "parse_peers (Some (pre @ blocks_text ?kept)) None = Inr (List.map_filter block_record ?kept)"
    using n assms(2) k by (rule parse_peers_document)
  then have 1: "parse_peers (Some (pre @ blocks_text ?kept)) None
      = Inr (filter (\<lambda>p. name p \<noteq> nm) (List.map_filter block_record bs))"
    using records_filter [OF assms(3)] by simp
  have 2: "parse_peers (Some (pre @ blocks_text bs)) None = Inr (List.map_filter block_record bs)"
    using assms(1,2,3) by (rule parse_peers_document)
  have 3: "\<forall>p\<in>set (List.map_filter block_record bs). \<exists>b\<in>set bs. fst b = name p"
    using records_names [OF assms(3)] by blast
  show ?thesis using r 1 2 3 by simp
qed

lemma remove_pattern_blocks:
  assumes "no_cr (pre @ blocks_text bs)" "plain pre" "\<forall>b\<in>set bs. rm_block b" "NL \<notin> set nm"
  shows "subn_empty (remove_pattern nm) (pre @ blocks_text bs)
       = (pre @ blocks_text (filter (\<lambda>b. fst b \<noteq> nm) bs), length (filter (\<lambda>b. fst b = nm) bs))
     \<and> snd (remove_peer (Some (pre @ blocks_text bs)) nm)
       = Some (pre @ blocks_text (filter (\<lambda>b. fst b \<noteq> nm) bs))"
proof -
  have 1: "subn_empty (remove_pattern nm) (pre @ blocks_text bs)
       = (pre @ blocks_text (filter (\<lambda>b. fst b \<noteq> nm) bs), length (filter (\<lambda>b. fst b = nm) bs))"
    using assms(2,3,4) by (rule subn_document)
  have 2: "snd (remove_peer (Some (pre @ blocks_text bs)) nm)
       = Some (pre @ blocks_text (filter (\<lambda>b. fst b \<noteq> nm) bs))"
  proof (cases "\<exists>b\<in>set bs. fst b = nm")
    case True
    then show ?thesis using remove_peer_document [OF assms] by simp
  next
    case False
    then have "filter (\<lambda>b. fst b \<noteq> nm) bs = bs" by (intro filter_same) simp
    then show ?thesis using False remove_peer_document [OF assms] by simp
  qed
  show ?thesis using 1 2 by simp
qed

text \<open>
  Claim C5, as the code has it. Whatever the file and the name, an answer \<open>False\<close> leaves the
  file as it was. Let the file have no carriage return and be a preamble without banner start
  followed by blocks laid out as \<open>generate_peer_block\<close> renders them, whose names are non-empty
  single lines without white space at either end, whose dates are non-empty single lines, and
  whose names, dates and bodies have no banner start; let the requested name have no line
  end. If some block has that name in its header, \<open>remove_peer\<close> answers \<open>True\<close> and writes the
  preamble followed by the blocks with another name, in order and unchanged, and decoding
  that file gives the records of the file before without those of that name. If no block has
  that name, \<open>remove_peer\<close> answers \<open>False\<close> and the file is the one before the call. Every
  listed record has the name of the header of its block.
\<close>

theorem remove_peer_by_header_name:
  "(fst (remove_peer (Some raw) nm) = Inr False \<longrightarrow> snd (remove_peer (Some raw) nm) = Some raw)
   \<and> (raw = pre @ blocks_text bs \<and> no_cr raw \<and> plain pre \<and> (\<forall>b\<in>set bs. rm_block b)
       \<and> NL \<notin> set nm \<longrightarrow>
        ((\<exists>b\<in>set bs. fst b = nm) \<longrightarrow>
            remove_peer (Some raw) nm
              = (Inr True, Some (pre @ blocks_text (filter (\<lambda>b. fst b \<noteq> nm) bs)))
            \<and> parse_peers (Some (pre @ blocks_text (filter (\<lambda>b. fst b \<noteq> nm) bs))) None
              = Inr (filter (\<lambda>p. name p \<noteq> nm) (List.map_filter block_record bs)))
        \<and> (\<not> (\<exists>b\<in>set bs. fst b = nm) \<longrightarrow> remove_peer (Some raw) nm = (Inr False, Some raw))
        \<and> parse_peers (Some raw) None = Inr (List.map_filter block_record bs)
        \<and> (\<forall>p\<in>set (List.map_filter block_record bs). \<exists>b\<in>set bs. fst b = name p))"
  using remove_False [of raw nm] remove_peer_blocks [of pre bs nm] by blast

lemma demo_document_facts:
  "no_cr (''[Interface]\<newline>Address = 10.8.0.1/24\<newline>'' @ blocks_text demo_blocks)"
  "\<forall>b\<in>set demo_blocks. rm_block b"
  by (simp_all add: demo_blocks_def blocks_text_def block_text_def BANNER_def no_cr_def
      rm_block_def clean_def line_def plain_def isspace_def sublist_Cons_right)

theorem remove_peer_by_header_name_witness:
  "remove_peer (Some (''[Interface]\<newline>Address = 10.8.0.1/24\<newline>'' @ blocks_text demo_blocks)) ''laptop''
     = (Inr True, Some (''[Interface]\<newline>Address = 10.8.0.1/24\<newline>'' @ blocks_text
          [(''broken'', ''2026-01-28'', ''PublicKey = KEY2\<newline>''),
           (''phone'', ''2026-01-29'', ''PublicKey = KEY3\<newline>AllowedIPs = 10.8.0.7/32\<newline>'')]))
   \<and> parse_peers (Some (''[Interface]\<newline>Address = 10.8.0.1/24\<newline>'' @ blocks_text demo_blocks)) None
     = Inr [\<lparr> name = ''laptop'', public_key = ''KEY1'', allowed_ips = ''10.8.0.5/32'',
              added_at = ''2026-01-27'', endpoint = None, preshared_key = None,
              latest_handshake = None, transfer_rx = None, transfer_tx = None \<rparr>,
            \<lparr> name = ''phone'', public_key = ''KEY3'', allowed_ips = ''10.8.0.7/32'',
              added_at = ''2026-01-29'', endpoint = None, preshared_key = None,
              latest_handshake = None, transfer_rx = None, transfer_tx = None \<rparr>]
   \<and> parse_peers (Some (''[Interface]\<newline>Address = 10.8.0.1/24\<newline>'' @ blocks_text
          [(''broken'', ''2026-01-28'', ''PublicKey = KEY2\<newline>''),
           (''phone'', ''2026-01-29'', ''PublicKey = KEY3\<newline>AllowedIPs = 10.8.0.7/32\<newline>'')])) None
     = Inr [\<lparr> name = ''phone'', public_key = ''KEY3'', allowed_ips = ''10.8.0.7/32'',
              added_at = ''2026-01-29'', endpoint = None, preshared_key = None,
              latest_handshake = None, transfer_rx = None, transfer_tx = None \<rparr>]
   \<and> fst (remove_peer (Some (''[Interface]\<newline>Address = 10.8.0.1/24\<newline>'' @ blocks_text demo_blocks))
        ''tablet'') = Inr False
   \<and> snd (remove_peer (Some (''[Interface]\<newline>Address = 10.8.0.1/24\<newline>'' @ blocks_text demo_blocks))
        ''tablet'') = Some (''[Interface]\<newline>Address = 10.8.0.1/24\<newline>'' @ blocks_text demo_blocks)"
proof -
  let ?pre = "''[Interface]\<newline>Address = 10.8.0.1/24\<newline>''"
  let ?raw = "?pre @ blocks_text demo_blocks"
  have n: "NL \<notin> set ''laptop''" "NL \<notin> set ''tablet''" by simp_all
  have rec: "List.map_filter block_record demo_blocks =
     [\<lparr> name = ''laptop'', public_key = ''KEY1'', allowed_ips = ''10.8.0.5/32'',
        added_at = ''2026-01-27'', endpoint = None, preshared_key = None,
        latest_handshake = None, transfer_rx = None, transfer_tx = None \<rparr>,
      \<lparr> name = ''phone'', public_key = ''KEY3'', allowed_ips = ''10.8.0.7/32'',
        added_at = ''2026-01-29'', endpoint = None, preshared_key = None,
        latest_handshake = None, transfer_rx = None, transfer_tx = None \<rparr>]"
    unfolding demo_blocks_def by (simp add: demo_block_records)
  have f: "filter (\<lambda>b. fst b \<noteq> ''laptop'') demo_blocks =
      [(''broken'', ''2026-01-28'', ''PublicKey = KEY2\<newline>''),
       (''phone'', ''2026-01-29'', ''PublicKey = KEY3\<newline>AllowedIPs = 10.8.0.7/32\<newline>'')]"
    "\<exists>b\<in>set demo_blocks. fst b = ''laptop''" "\<not> (\<exists>b\<in>set demo_blocks. fst b = ''tablet'')"
    by (simp_all add: demo_blocks_def)
  note t1 = remove_peer_by_header_name [where raw = ?raw and pre = ?pre and bs = demo_blocks
      and nm = "''laptop''"]
  note t2 = remove_peer_by_header_name [where raw = ?raw and pre = ?pre and bs = demo_blocks
      and nm = "''tablet''"]
  have 1: "remove_peer (Some ?raw) ''laptop''
      = (Inr True, Some (?pre @ blocks_text (filter (\<lambda>b. fst b \<noteq> ''laptop'') demo_blocks)))
    \<and> parse_peers (Some (?pre @ blocks_text (filter (\<lambda>b. fst b \<noteq> ''laptop'') demo_blocks))) None
      = Inr (filter (\<lambda>p. name p \<noteq> ''laptop'') (List.map_filter block_record demo_blocks))"
    using t1 [THEN conjunct2] demo_document_facts demo_blocks_wf(1) n(1) f(2) by blast
  have 2: "remove_peer (Some ?raw) ''tablet'' = (Inr False, Some ?raw)"
    using t2 [THEN conjunct2] demo_document_facts demo_blocks_wf(1) n(2) f(3) by blast
  then have 20: "fst (remove_peer (Some ?raw) ''tablet'') = Inr False" by simp
  have 21: "snd (remove_peer (Some ?raw) ''tablet'') = Some ?raw"
    using t2 [THEN conjunct1] 20 by blast
  have 3: "parse_peers (Some ?raw) None = Inr (List.map_filter block_record demo_blocks)"
    using t1 [THEN conjunct2] demo_document_facts demo_blocks_wf(1) n(1) by blast
  show ?thesis using 1 20 21 3 unfolding f(1) rec by simp
qed

text \<open>
  The claim as stated goes by the names that are listed. The decoder trims the name of a
  header and \<open>remove_peer\<close> compares the header as it is written: the record of this file is
  listed under the name \<open>laptop\<close>, and removing \<open>laptop\<close> answers \<open>False\<close> and leaves the file.
\<close>

theorem remove_peer_listed_name_counterexample:
  "parse_peers (Some spaced_name) None =
     Inr [\<lparr> name = ''laptop'', public_key = ''KEY1'', allowed_ips = ''10.8.0.5/32'',
            added_at = ''2026-01-28'', endpoint = None, preshared_key = None,
            latest_handshake = None, transfer_rx = None, transfer_tx = None \<rparr>]
   \<and> remove_peer (Some spaced_name) ''laptop'' = (Inr False, Some spaced_name)"
  by code_simp

text \<open>
  Claim C9, as the code has it. \<open>re.escape\<close> makes the name a literal of the pattern. Whatever
  the file and the name, \<open>remove_peer\<close> answers \<open>True\<close> only if the text it read contains,
  character for character, the end of a banner, a line end, \<open># ClientName: \<close>, the name, a line
  end and \<open># AddedAt: \<close>. For a name without line end, and a file without carriage return that
  is a preamble without banner start followed by blocks laid out as \<open>generate_peer_block\<close>
  renders them (names non-empty single lines without white space at either end, dates
  non-empty single lines, no banner start in names, dates and bodies), the pattern matches
  exactly the blocks whose header name is that string: their number is the count of
  substitutions, and the text that is left, which is the file after the call, is the preamble
  followed by all blocks whose name differs from it, in order and unchanged.
\<close>

theorem remove_peer_literal_name:
  "(fst (remove_peer (Some raw) nm) = Inr True \<longrightarrow>
      sublist (CHR ''='' # NL # ''# ClientName: '' @ nm @ NL # ''# AddedAt: '')
        (universal_newlines raw))
   \<and> (raw = pre @ blocks_text bs \<and> no_cr raw \<and> plain pre \<and> (\<forall>b\<in>set bs. rm_block b)
       \<and> NL \<notin> set nm \<longrightarrow>
        subn_empty (remove_pattern nm) raw
          = (pre @ blocks_text (filter (\<lambda>b. fst b \<noteq> nm) bs),
             length (filter (\<lambda>b. fst b = nm) bs))
        \<and> snd (remove_peer (Some raw) nm)
          = Some (pre @ blocks_text (filter (\<lambda>b. fst b \<noteq> nm) bs)))"
  using remove_True [of raw nm] remove_pattern_blocks [of pre bs nm] by blast

lemma meta_document_facts:
  "no_cr (''[Interface]\<newline>Address = 10.8.0.1/24\<newline>'' @ blocks_text meta_blocks)"
  "\<forall>b\<in>set meta_blocks. rm_block b"
  by (simp_all add: meta_blocks_def blocks_text_def block_text_def BANNER_def no_cr_def
      rm_block_def clean_def line_def plain_def isspace_def sublist_Cons_right)

theorem remove_peer_literal_name_witness:
  "snd (remove_peer (Some (''[Interface]\<newline>Address = 10.8.0.1/24\<newline>'' @ blocks_text meta_blocks)) ''a.b'')
     = Some (''[Interface]\<newline>Address = 10.8.0.1/24\<newline>'' @ blocks_text
          [(''aXb'', ''2026-01-27'', ''PublicKey = KEY1\<newline>AllowedIPs = 10.8.0.5/32\<newline>''),
           (''dev1'', ''2026-01-29'', ''PublicKey = KEY3\<newline>AllowedIPs = 10.8.0.7/32\<newline>'')])
   \<and> subn_empty (remove_pattern ''dev[1]'')
        (''[Interface]\<newline>Address = 10.8.0.1/24\<newline>'' @ blocks_text meta_blocks)
     = (''[Interface]\<newline>Address = 10.8.0.1/24\<newline>'' @ blocks_text meta_blocks, 0)
   \<and> fst (remove_peer (Some two_blocks) long_name) = Inr True
   \<and> sublist (CHR ''='' # NL # ''# ClientName: '' @ long_name @ NL # ''# AddedAt: '')
        (universal_newlines two_blocks)"
proof -
  let ?pre = "''[Interface]\<newline>Address = 10.8.0.1/24\<newline>''"
  let ?raw = "?pre @ blocks_text meta_blocks"
  have n: "NL \<notin> set ''a.b''" "NL \<notin> set ''dev[1]''" by simp_all
  have f: "filter (\<lambda>b. fst b \<noteq> ''a.b'') meta_blocks =
      [(''aXb'', ''2026-01-27'', ''PublicKey = KEY1\<newline>AllowedIPs = 10.8.0.5/32\<newline>''),
       (''dev1'', ''2026-01-29'', ''PublicKey = KEY3\<newline>AllowedIPs = 10.8.0.7/32\<newline>'')]"
    "filter (\<lambda>b. fst b \<noteq> ''dev[1]'') meta_blocks = meta_blocks"
    "filter (\<lambda>b. fst b = ''dev[1]'') meta_blocks = []"
    by (simp_all add: meta_blocks_def)
  note t1 = remove_peer_literal_name [where raw = ?raw and pre = ?pre and bs = meta_blocks
      and nm = "''a.b''"]
  note t2 = remove_peer_literal_name [where raw = ?raw and pre = ?pre and bs = meta_blocks
      and nm = "''dev[1]''"]
  note t3 = remove_peer_literal_name [where raw = two_blocks and nm = long_name]
  have 1: "snd (remove_peer (Some ?raw) ''a.b'')
      = Some (?pre @ blocks_text (filter (\<lambda>b. fst b \<noteq> ''a.b'') meta_blocks))"
    using t1 [THEN conjunct2] meta_document_facts demo_blocks_wf(1) n(1) by blast
  have 2: "subn_empty (remove_pattern ''dev[1]'') ?raw
      = (?pre @ blocks_text (filter (\<lambda>b. fst b \<noteq> ''dev[1]'') meta_blocks),
         length (filter (\<lambda>b. fst b = ''dev[1]'') meta_blocks))"
    using t2 [THEN conjunct2] meta_document_facts demo_blocks_wf(1) n(2) by blast
  have 3: "fst (remove_peer (Some two_blocks) long_name) = Inr True" by code_simp
  have 4: "sublist (CHR ''='' # NL # ''# ClientName: '' @ long_name @ NL # ''# AddedAt: '')
        (universal_newlines two_blocks)"
    using t3 [THEN conjunct1] 3 by blast
  show ?thesis using 1 2 3 4 unfolding f by simp
qed

text \<open>
  The claim as stated is for every name. A name may hold line ends, and then it is matched
  literally over several lines: the name below reaches from the header of the first block to
  the name line of the second, no block has it as its name, and removing it deletes the blocks
  of the peers \<open>a\<close> and \<open>b\<close>.
\<close>

theorem remove_peer_multi_line_name_counterexample:
  "map name (parse_text two_blocks) = [''a'', ''b'']
   \<and> long_name \<notin> set (map name (parse_text two_blocks))
   \<and> remove_peer (Some two_blocks) long_name = (Inr True, Some [])"
  by code_simp

end
